theory Spec2Isabelle
  imports Complex_Main
begin

section \<open>Observable properties and bindings of \<^verbatim>\<open>bdn/property.h\<close>\<close>

text \<open>
  The header defines properties by macros: a getter, a setter and a lazily created change
  notifier per property, and bindings that subscribe a receiver's setter to a sender's
  notifier. The embedding keeps the member variables the macros generate in a heap indexed
  by (owner object, property name), passes the program state explicitly, and returns every
  way a call can end as a value of \<open>outcome\<close>.
\<close>

subsection \<open>Data\<close>

type_synonym owner = nat
type_synonym pname = string
type_synonym pref = "owner \<times> pname"

text \<open>
  The function objects that the header builds, by the function that builds them:
  \<^item> \<open>WeakSubscriber\<close>: the lambda of \<^verbatim>\<open>_makePropertySubscriber\<close>, capturing
    \<^verbatim>\<open>weakOwner\<close> and \<^verbatim>\<open>setterMethod\<close>;
  \<^item> \<open>WeakSubscriberWithFilter\<close>: the lambda of \<^verbatim>\<open>_makePropertySubscriberWithFilter\<close>,
    capturing \<^verbatim>\<open>weakOwner\<close>, \<^verbatim>\<open>setterMethod\<close> and \<^verbatim>\<open>filterFunc\<close>;
  \<^item> \<open>RawSubscriberWithFilter\<close>: the lambda of \<^verbatim>\<open>makePropertySubscriberWithFilter\<close>,
    capturing the raw \<^verbatim>\<open>pOwner\<close>, \<^verbatim>\<open>setterMethod\<close> and \<^verbatim>\<open>filterFunc\<close>;
  \<^item> \<open>Callback\<close>: any other \<^verbatim>\<open>std::function\<close> a client subscribes; it touches no property
    and records its tag and its argument in the call log of the state.
  A setter method pointer is the name of the property it sets.
\<close>

datatype 'v subscriber =
    WeakSubscriber owner pname
  | WeakSubscriberWithFilter owner pname "'v \<Rightarrow> 'v"
  | RawSubscriberWithFilter owner pname "'v \<Rightarrow> 'v"
  | Callback nat

text \<open>
  Which code defines the getter and the setter of a property: \<^verbatim>\<open>BDN_PROPERTY\<close> (the value
  is stored as it is), or the hand-written pair of the \<^verbatim>\<open>Length\<close> example in the
  documentation of \<^verbatim>\<open>BDN_FINALIZE_CUSTOM_PROPERTY\<close>, which stores \<^verbatim>\<open>newValue / 100\<close>
  and reads \<^verbatim>\<open>_meters * 100\<close>. The example computes on \<^verbatim>\<open>double\<close>; the two
  arithmetic operations are parameters of the model (first the multiplication by 100,
  then the division by 100).
\<close>

datatype 'v accessors =
    BDN_PROPERTY
  | Length "'v \<Rightarrow> 'v" "'v \<Rightarrow> 'v"

text \<open>
  \<^verbatim>\<open>bdn::PropertyNotifier\<close>: its declaration is not part of the sources at hand. The
  object is allocated by \<^verbatim>\<open>newObj\<close>; \<open>address\<close> is its identity.
\<close>

record 'v PropertyNotifier =
  address :: nat
  subscribers :: "'v subscriber list"

text \<open>
  The members a property macro adds to the owner: \<^verbatim>\<open>_propertyValue_name\<close> (for the
  \<^verbatim>\<open>Length\<close> example, \<^verbatim>\<open>_meters\<close>) and the pointer \<^verbatim>\<open>_pPropertyChanged_name\<close>, null
  until the notifier is first asked for.
\<close>

record 'v property =
  accessors :: "'v accessors"
  propertyValue :: 'v
  pPropertyChanged :: "'v PropertyNotifier option"

record 'v state =
  heap :: "pref \<Rightarrow> 'v property option"
  live :: "owner set"
  nextAddress :: nat
  calls :: "(nat \<times> 'v) list"

datatype exception = DanglingFunctionError

text \<open>
  How a call ends: it returns; it throws, leaving the state as it was at the throw; it
  dereferences an object that does not exist (undefined behaviour in C++); or the nesting
  of subscriber calls exceeds the depth the model was given.
\<close>

datatype 'v outcome =
    Returned "'v state"
  | Threw exception "'v state"
  | UndefinedBehaviour
  | OutOfFuel

subsection \<open>Getter and notifier accessor\<close>

text \<open>The value the getter computes from the stored member.\<close>

fun readValue :: "'v property \<Rightarrow> 'v" where
  "readValue pr =
     (case accessors pr of
        BDN_PROPERTY \<Rightarrow> propertyValue pr
      | Length times100 divide100 \<Rightarrow> times100 (propertyValue pr))"

text \<open>The assignment the setter makes to the stored member.\<close>

fun writeValue :: "'v property \<Rightarrow> 'v \<Rightarrow> 'v property" where
  "writeValue pr v =
     (case accessors pr of
        BDN_PROPERTY \<Rightarrow> pr\<lparr>propertyValue := v\<rparr>
      | Length times100 divide100 \<Rightarrow> pr\<lparr>propertyValue := divide100 v\<rparr>)"

text \<open>\<^verbatim>\<open>name()\<close>: \<open>None\<close> when the object or the property does not exist.\<close>

definition getter :: "pref \<Rightarrow> 'v state \<Rightarrow> 'v option" where
  "getter p s = map_option readValue (heap s p)"

text \<open>
  \<^verbatim>\<open>name##Changed()\<close> of \<^verbatim>\<open>BDN_PROPERTY_CHANGED_DEFAULT_IMPLEMENTATION\<close>: allocates the
  notifier when the pointer is null, and returns the notifier the pointer refers to.
\<close>

definition propertyChanged :: "pref \<Rightarrow> 'v state \<Rightarrow> ('v PropertyNotifier \<times> 'v state) option" where
  "propertyChanged p s =
     (case heap s p of
        None \<Rightarrow> None
      | Some pr \<Rightarrow>
          (case pPropertyChanged pr of
             None \<Rightarrow>
               (let n = \<lparr>address = nextAddress s, subscribers = []\<rparr>
                in Some (n, s\<lparr>heap := (heap s)(p \<mapsto> pr\<lparr>pPropertyChanged := Some n\<rparr>),
                               nextAddress := Suc (nextAddress s)\<rparr>))
           | Some n \<Rightarrow> Some (n, s)))"

subsection \<open>Setter, notification and subscriber calls\<close>

text \<open>
  Modelled from the spec: \<^verbatim>\<open>PropertyNotifier::notify\<close> and \<^verbatim>\<open>BDN_PROPERTY_READ_ACCESSOR\<close>
  (\<^verbatim>\<open>bdn/PropertyNotifier.h\<close> and \<^verbatim>\<open>bdn/PlainPropertyReadAccessor.h\<close> are missing), and
  \<^verbatim>\<open>WeakP::toStrong\<close>. \<open>notify\<close> invokes every registered subscriber, in subscription
  order, with the value; a failure of a subscriber leaves \<open>notify\<close> at once, and nothing
  is removed or retried. The read accessor reads the property through its getter.
  \<open>toStrong\<close> resolves to the owner, or to null when the owner no longer exists.

  The other three functions are the header's: the setter that \<^verbatim>\<open>BDN_PROPERTY\<close> generates
  (and \<^verbatim>\<open>setCentimeters\<close> of the example), \<^verbatim>\<open>BDN_NOTIFY_PROPERTY_CHANGED\<close>, and the bodies of
  the lambdas. The first argument bounds the nesting depth of subscriber calls.
\<close>

function (sequential) setter :: "nat \<Rightarrow> pref \<Rightarrow> 'v \<Rightarrow> 'v state \<Rightarrow> 'v outcome"
  and BDN_NOTIFY_PROPERTY_CHANGED :: "nat \<Rightarrow> pref \<Rightarrow> 'v state \<Rightarrow> 'v outcome"
  and notify :: "nat \<Rightarrow> 'v subscriber list \<Rightarrow> 'v \<Rightarrow> 'v state \<Rightarrow> 'v outcome"
  and call :: "nat \<Rightarrow> 'v subscriber \<Rightarrow> 'v \<Rightarrow> 'v state \<Rightarrow> 'v outcome"
where
  "setter k p v s =
     (case heap s p of
        None \<Rightarrow> UndefinedBehaviour
      | Some pr \<Rightarrow>
          if readValue pr \<noteq> v
          then BDN_NOTIFY_PROPERTY_CHANGED k p (s\<lparr>heap := (heap s)(p \<mapsto> writeValue pr v)\<rparr>)
          else Returned s)"
| "BDN_NOTIFY_PROPERTY_CHANGED k p s =
     (case propertyChanged p s of
        None \<Rightarrow> UndefinedBehaviour
      | Some (n, s1) \<Rightarrow>
          (case getter p s1 of
             None \<Rightarrow> UndefinedBehaviour
           | Some v \<Rightarrow> notify k (subscribers n) v s1))"
| "notify k [] v s = Returned s"
| "notify k (sub # subs) v s =
     (case call k sub v s of
        Returned s1 \<Rightarrow> notify k subs v s1
      | Threw e s1 \<Rightarrow> Threw e s1
      | UndefinedBehaviour \<Rightarrow> UndefinedBehaviour
      | OutOfFuel \<Rightarrow> OutOfFuel)"
| "call 0 sub v s = OutOfFuel"
| "call (Suc k) (WeakSubscriber weakOwner setterMethod) v s =
     (if weakOwner \<notin> live s then Threw DanglingFunctionError s
      else setter k (weakOwner, setterMethod) v s)"
| "call (Suc k) (WeakSubscriberWithFilter weakOwner setterMethod filterFunc) v s =
     (if weakOwner \<notin> live s then Threw DanglingFunctionError s
      else setter k (weakOwner, setterMethod) (filterFunc v) s)"
| "call (Suc k) (RawSubscriberWithFilter pOwner setterMethod filterFunc) v s =
     (if pOwner \<notin> live s then UndefinedBehaviour
      else setter k (pOwner, setterMethod) (filterFunc v) s)"
| "call (Suc k) (Callback tag) v s = Returned (s\<lparr>calls := calls s @ [(tag, v)]\<rparr>)"
  by pat_completeness auto

termination
  by (relation "inv_image (less_than <*lex*> less_than <*lex*> less_than)
       (\<lambda>x. case x of
          Inl (Inl (k, p, v, s)) \<Rightarrow> (k, 3::nat, 0::nat)
        | Inl (Inr (k, p, s)) \<Rightarrow> (k, 2, 0)
        | Inr (Inl (k, subs, v, s)) \<Rightarrow> (k, 1, length subs)
        | Inr (Inr (k, sub, v, s)) \<Rightarrow> (k, 0, 0))") auto

declare setter.simps [simp del]
declare BDN_NOTIFY_PROPERTY_CHANGED.simps [simp del]

subsection \<open>Subscribers and bindings\<close>

definition underscore_makePropertySubscriber :: "owner \<Rightarrow> pname \<Rightarrow> 'v subscriber" where
  "underscore_makePropertySubscriber pOwner setterMethod = WeakSubscriber pOwner setterMethod"

definition underscore_makePropertySubscriberWithFilter ::
  "owner \<Rightarrow> pname \<Rightarrow> ('v \<Rightarrow> 'v) \<Rightarrow> 'v subscriber" where
  "underscore_makePropertySubscriberWithFilter pOwner setterMethod filterFunc =
     WeakSubscriberWithFilter pOwner setterMethod filterFunc"

definition makePropertySubscriberWithFilter ::
  "owner \<Rightarrow> pname \<Rightarrow> ('v \<Rightarrow> 'v) \<Rightarrow> 'v subscriber" where
  "makePropertySubscriberWithFilter pOwner setterMethod filterFunc =
     RawSubscriberWithFilter pOwner setterMethod filterFunc"

text \<open>
  Modelled from the spec: \<^verbatim>\<open>PropertyNotifier::subscribe\<close> (\<^verbatim>\<open>bdn/PropertyNotifier.h\<close> is
  missing) appends the callback to the subscriber list. It is applied to the notifier that
  the pointer of property \<open>p\<close> refers to.
\<close>

definition subscribe :: "pref \<Rightarrow> 'v subscriber \<Rightarrow> 'v state \<Rightarrow> 'v state" where
  "subscribe p sub s =
     (case heap s p of
        None \<Rightarrow> s
      | Some pr \<Rightarrow>
          (case pPropertyChanged pr of
             None \<Rightarrow> s
           | Some n \<Rightarrow>
               s\<lparr>heap := (heap s)(p \<mapsto>
                   pr\<lparr>pPropertyChanged := Some (n\<lparr>subscribers := subscribers n @ [sub]\<rparr>)\<rparr>)\<rparr>))"

text \<open>
  The binding macros take the owners as objects or references, so both exist when the
  macro runs. The receiver is given by its setter and the sender by its property name; a
  property and its setter are the same \<open>pref\<close> here.
\<close>

definition BDN_BIND_TO_PROPERTY :: "nat \<Rightarrow> pref \<Rightarrow> pref \<Rightarrow> 'v state \<Rightarrow> 'v outcome" where
  "BDN_BIND_TO_PROPERTY k receiver sender s =
     (if fst receiver \<notin> live s \<or> fst sender \<notin> live s then UndefinedBehaviour
      else case propertyChanged sender s of
        None \<Rightarrow> UndefinedBehaviour
      | Some (n, s1) \<Rightarrow>
          (let s2 = subscribe sender
                      (underscore_makePropertySubscriber (fst receiver) (snd receiver)) s1
           in case getter sender s2 of
                None \<Rightarrow> UndefinedBehaviour
              | Some v \<Rightarrow> setter k receiver v s2))"

definition BDN_BIND_TO_PROPERTY_WITH_FILTER ::
  "nat \<Rightarrow> pref \<Rightarrow> pref \<Rightarrow> ('v \<Rightarrow> 'v) \<Rightarrow> 'v state \<Rightarrow> 'v outcome" where
  "BDN_BIND_TO_PROPERTY_WITH_FILTER k receiver sender filterFunc s =
     (if fst receiver \<notin> live s \<or> fst sender \<notin> live s then UndefinedBehaviour
      else case propertyChanged sender s of
        None \<Rightarrow> UndefinedBehaviour
      | Some (n, s1) \<Rightarrow>
          (let s2 = subscribe sender
                      (underscore_makePropertySubscriberWithFilter
                         (fst receiver) (snd receiver) filterFunc) s1
           in case getter sender s2 of
                None \<Rightarrow> UndefinedBehaviour
              | Some v \<Rightarrow> setter k receiver (filterFunc v) s2))"

definition BDN_BIND_PROPERTIES :: "nat \<Rightarrow> pref \<Rightarrow> pref \<Rightarrow> 'v state \<Rightarrow> 'v outcome" where
  "BDN_BIND_PROPERTIES k a b s =
     (case BDN_BIND_TO_PROPERTY k a b s of
        Returned s1 \<Rightarrow> BDN_BIND_TO_PROPERTY k b a s1
      | Threw e s1 \<Rightarrow> Threw e s1
      | UndefinedBehaviour \<Rightarrow> UndefinedBehaviour
      | OutOfFuel \<Rightarrow> OutOfFuel)"

text \<open>The end of an owner's lifetime: its members are gone and weak references to it no
  longer resolve.\<close>

definition destroy :: "owner \<Rightarrow> 'v state \<Rightarrow> 'v state" where
  "destroy ow s =
     s\<lparr>heap := (\<lambda>p. if fst p = ow then None else heap s p), live := live s - {ow}\<rparr>"

subsection \<open>States after a call, and what a call leaves alone\<close>

text \<open>The state a call leaves behind, when it returns or throws.\<close>

fun final :: "'v outcome \<Rightarrow> 'v state option" where
  "final (Returned s) = Some s"
| "final (Threw e s) = Some s"
| "final UndefinedBehaviour = None"
| "final OutOfFuel = None"

text \<open>
  \<open>keeps old new\<close>: a notifier pointer that was set still refers to the same notifier with
  the same subscribers; one that was null is null or refers to a notifier without
  subscribers. \<open>evolves s s'\<close>: what no setter call changes between \<open>s\<close> and \<open>s'\<close>.
\<close>

definition keeps :: "'v PropertyNotifier option \<Rightarrow> 'v PropertyNotifier option \<Rightarrow> bool" where
  "keeps old new \<longleftrightarrow>
     (\<forall>n. old = Some n \<longrightarrow> new = Some n) \<and>
     (\<forall>n. old = None \<longrightarrow> new = Some n \<longrightarrow> subscribers n = [])"

definition evolves :: "'v state \<Rightarrow> 'v state \<Rightarrow> bool" where
  "evolves s s' \<longleftrightarrow>
     live s' = live s \<and> nextAddress s \<le> nextAddress s' \<and>
     (\<exists>cs. calls s' = calls s @ cs) \<and>
     (\<forall>p. heap s' p = None \<longleftrightarrow> heap s p = None) \<and>
     (\<forall>p pr pr'. heap s p = Some pr \<longrightarrow> heap s' p = Some pr' \<longrightarrow>
        accessors pr' = accessors pr \<and> keeps (pPropertyChanged pr) (pPropertyChanged pr'))"


subsection \<open>Example objects\<close>

text \<open>A property as its owner's constructor leaves it: the value given, the notifier
  pointer null.\<close>

definition newProperty :: "'v \<Rightarrow> 'v property" where
  "newProperty v = \<lparr>accessors = BDN_PROPERTY, propertyValue = v, pPropertyChanged = None\<rparr>"

definition observed :: "'v \<Rightarrow> 'v subscriber list \<Rightarrow> 'v property" where
  "observed v subs =
     \<lparr>accessors = BDN_PROPERTY, propertyValue = v,
      pPropertyChanged = Some \<lparr>address = 0, subscribers = subs\<rparr>\<rparr>"

text \<open>Object 0 with property \<open>a\<close> (value 5, two client callbacks subscribed) and object 1
  with property \<open>b\<close> (value 7, never asked for its notifier).\<close>

definition twoObjects :: "int state" where
  "twoObjects =
     \<lparr>heap = (\<lambda>p. if p = (0, ''a'') then Some (observed 5 [Callback 1, Callback 2])
                  else if p = (1, ''b'') then Some (newProperty 7) else None),
      live = {0, 1}, nextAddress = 1, calls = []\<rparr>"

fun target :: "'v subscriber \<Rightarrow> pref option" where
  "target (WeakSubscriber ow m) = Some (ow, m)"
| "target (WeakSubscriberWithFilter ow m f) = Some (ow, m)"
| "target (RawSubscriberWithFilter ow m f) = Some (ow, m)"
| "target (Callback t) = None"

fun plainSubscriber :: "'v subscriber \<Rightarrow> bool" where
  "plainSubscriber (WeakSubscriber ow m) = True"
| "plainSubscriber (Callback t) = True"
| "plainSubscriber sub = False"

definition subscribersOf :: "pref \<Rightarrow> 'v state \<Rightarrow> 'v subscriber list" where
  "subscribersOf p s =
     (case heap s p of
        None \<Rightarrow> []
      | Some pr \<Rightarrow> (case pPropertyChanged pr of None \<Rightarrow> [] | Some n \<Rightarrow> subscribers n))"

definition into :: "pref set \<Rightarrow> 'v subscriber list \<Rightarrow> bool" where
  "into R subs \<longleftrightarrow> (\<forall>sub\<in>set subs. \<forall>q. target sub = Some q \<longrightarrow> q \<in> R)"

definition closedRegion :: "pref set \<Rightarrow> 'v state \<Rightarrow> bool" where
  "closedRegion R s \<longleftrightarrow> (\<forall>p\<in>R. into R (subscribersOf p s))"

definition unchangedOutside :: "pref set \<Rightarrow> 'v state \<Rightarrow> 'v state \<Rightarrow> bool" where
  "unchangedOutside R s s' \<longleftrightarrow> (\<forall>q. q \<notin> R \<longrightarrow> heap s' q = heap s q)"

definition plainRegion :: "pref set \<Rightarrow> 'v state \<Rightarrow> bool" where
  "plainRegion R s \<longleftrightarrow>
     closedRegion R s \<and>
     (\<forall>p\<in>R. (\<forall>pr. heap s p = Some pr \<longrightarrow> accessors pr = BDN_PROPERTY) \<and>
             list_all plainSubscriber (subscribersOf p s))"

definition writesOnly :: "'v \<Rightarrow> 'v state \<Rightarrow> 'v state \<Rightarrow> bool" where
  "writesOnly v s s' \<longleftrightarrow> (\<forall>q. getter q s' = getter q s \<or> getter q s' = Some v)"

definition soundRegion :: "pref set \<Rightarrow> 'v state \<Rightarrow> bool" where
  "soundRegion R s \<longleftrightarrow> (\<forall>p\<in>R. heap s p \<noteq> None \<and> fst p \<in> live s)"

definition unsettled :: "pref set \<Rightarrow> 'v \<Rightarrow> 'v state \<Rightarrow> pref set" where
  "unsettled R v s = {q \<in> R. getter q s \<noteq> Some v}"

definition staleBinding :: "int state" where
  "staleBinding =
     \<lparr>heap = (\<lambda>p. if p = (0, ''a'')
                  then Some (observed 5 [Callback 1, Callback 2, WeakSubscriber 1 ''b''])
                  else None),
      live = {0}, nextAddress = 2, calls = []\<rparr>"

datatype 'v command =
    Set pref 'v
  | Changed pref
  | Subscribe pref "'v subscriber"
  | BindToProperty pref pref
  | BindToPropertyWithFilter pref pref "'v \<Rightarrow> 'v"
  | BindProperties pref pref
  | Destroy owner

fun exec :: "nat \<Rightarrow> 'v command \<Rightarrow> 'v state \<Rightarrow> 'v state option" where
  "exec k (Set p v) s = final (setter k p v s)"
| "exec k (Changed p) s = map_option snd (propertyChanged p s)"
| "exec k (Subscribe p sub) s = map_option (\<lambda>x. subscribe p sub (snd x)) (propertyChanged p s)"
| "exec k (BindToProperty receiver sender) s = final (BDN_BIND_TO_PROPERTY k receiver sender s)"
| "exec k (BindToPropertyWithFilter receiver sender filterFunc) s =
     final (BDN_BIND_TO_PROPERTY_WITH_FILTER k receiver sender filterFunc s)"
| "exec k (BindProperties a b) s = final (BDN_BIND_PROPERTIES k a b s)"
| "exec k (Destroy ow) s = Some (destroy ow s)"

fun run :: "nat \<Rightarrow> 'v command list \<Rightarrow> 'v state \<Rightarrow> 'v state option" where
  "run k [] s = Some s"
| "run k (c # cs) s = (case exec k c s of None \<Rightarrow> None | Some s1 \<Rightarrow> run k cs s1)"

definition ages :: "'v state \<Rightarrow> 'v state \<Rightarrow> bool" where
  "ages s s' \<longleftrightarrow>
     (\<forall>p. heap s p = None \<longrightarrow> heap s' p = None) \<and>
     (\<forall>p pr n pr'. heap s p = Some pr \<longrightarrow> pPropertyChanged pr = Some n \<longrightarrow>
        heap s' p = Some pr' \<longrightarrow>
        (\<exists>n'. pPropertyChanged pr' = Some n' \<and> address n' = address n))"

fun setsIn :: "pref set \<Rightarrow> 'v command \<Rightarrow> bool" where
  "setsIn R (Set q v) = (q \<in> R)"
| "setsIn R c = False"

definition boundOneWay :: "int state" where
  "boundOneWay =
     \<lparr>heap = (\<lambda>p. if p = (0, ''a'') then Some (observed 7 [Callback 1, Callback 2])
                  else if p = (1, ''b'')
                  then Some \<lparr>accessors = BDN_PROPERTY, propertyValue = 7,
                             pPropertyChanged =
                               Some \<lparr>address = 1, subscribers = [WeakSubscriber 0 ''a'']\<rparr>\<rparr>
                  else None),
      live = {0, 1}, nextAddress = 2, calls = [(1, 7), (2, 7)]\<rparr>"




text \<open>The \<^verbatim>\<open>Length\<close> example: object 2 with the custom property \<open>centimeters\<close>
  (\<^verbatim>\<open>_meters\<close> is 0), observed by a client callback and bound to the plain property
  \<open>shown\<close> of object 3. The \<^verbatim>\<open>double\<close> values of the example are real numbers here:
  \<^verbatim>\<open>newValue / 100\<close> and \<^verbatim>\<open>_meters * 100\<close> are the exact quotient and product, which they
  also are in \<^verbatim>\<open>double\<close> arithmetic for the values used below (250, 2.5, 0).\<close>

definition lengthObject :: "real state" where
  "lengthObject =
     \<lparr>heap = (\<lambda>p. if p = (2, ''centimeters'')
                  then Some \<lparr>accessors = Length (\<lambda>m. m * 100) (\<lambda>c. c / 100), propertyValue = 0,
                             pPropertyChanged =
                               Some \<lparr>address = 0,
                                     subscribers = [Callback 7, WeakSubscriber 3 ''shown'']\<rparr>\<rparr>
                  else if p = (3, ''shown'') then Some (newProperty 0) else None),
      live = {2, 3}, nextAddress = 1, calls = []\<rparr>"







section \<open>Properties of the setter and the notifier\<close>

lemma keeps_refl: "keeps a a"
  by (simp add: keeps_def)

lemma keeps_trans: "keeps a b \<Longrightarrow> keeps b c \<Longrightarrow> keeps a c"
  by (cases a; cases b; auto simp: keeps_def)

lemma evolves_refl: "evolves s s"
  by (auto simp: evolves_def keeps_refl)

lemma evolves_dom: "evolves s t \<Longrightarrow> (heap t p = None) = (heap s p = None)"
  unfolding evolves_def by blast

lemma evolves_prop:
  assumes "evolves s t" and "heap s p = Some pr"
  shows "\<exists>pr'. heap t p = Some pr' \<and> accessors pr' = accessors pr \<and>
           keeps (pPropertyChanged pr) (pPropertyChanged pr')"
proof -
  from evolves_dom[OF assms(1), of p] assms(2) obtain pr' where t: "heap t p = Some pr'"
    by (cases "heap t p") simp_all
  from assms(1) have "\<forall>p pr pr'. heap s p = Some pr \<longrightarrow> heap t p = Some pr' \<longrightarrow>
        accessors pr' = accessors pr \<and> keeps (pPropertyChanged pr) (pPropertyChanged pr')"
    unfolding evolves_def by blast
  with assms(2) t show ?thesis by blast
qed

lemma evolves_trans:
  assumes "evolves s t" and "evolves t u"
  shows "evolves s u"
  unfolding evolves_def
proof (intro conjI allI impI)
  show "live u = live s" using assms unfolding evolves_def by simp
  show "nextAddress s \<le> nextAddress u" using assms unfolding evolves_def by simp
  show "\<exists>cs. calls u = calls s @ cs" using assms unfolding evolves_def by auto
  show "heap u p = None \<longleftrightarrow> heap s p = None" for p
    using evolves_dom[OF assms(1)] evolves_dom[OF assms(2)] by simp
next
  fix p pr pr'
  assume s: "heap s p = Some pr" and u: "heap u p = Some pr'"
  from evolves_prop[OF assms(1) s] obtain pr1 where t: "heap t p = Some pr1"
    and 1: "accessors pr1 = accessors pr" "keeps (pPropertyChanged pr) (pPropertyChanged pr1)"
    by blast
  from evolves_prop[OF assms(2) t] u have 2: "accessors pr' = accessors pr1"
      "keeps (pPropertyChanged pr1) (pPropertyChanged pr')"
    by auto
  from 1 2 show "accessors pr' = accessors pr" by simp
  from 1 2 show "keeps (pPropertyChanged pr) (pPropertyChanged pr')" by (blast intro: keeps_trans)
qed

lemma evolves_write:
  assumes "heap s p = Some pr"
  shows "evolves s (s\<lparr>heap := (heap s)(p \<mapsto> writeValue pr v)\<rparr>)"
  using assms by (auto simp: evolves_def keeps_refl split: accessors.splits)

lemma evolves_propertyChanged:
  assumes "propertyChanged p s = Some (n, s1)"
  shows "evolves s s1"
  using assms
  by (auto simp: propertyChanged_def evolves_def keeps_refl keeps_def Let_def
           split: option.splits if_splits)

lemma evolves_log: "evolves s (s\<lparr>calls := calls s @ cs\<rparr>)"
  by (auto simp: evolves_def keeps_refl)

lemma frame:
  "final (setter k p v s) = Some s' \<Longrightarrow> evolves s s'"
  "final (BDN_NOTIFY_PROPERTY_CHANGED k p s) = Some s' \<Longrightarrow> evolves s s'"
  "final (notify k subs v s) = Some s' \<Longrightarrow> evolves s s'"
  "final (call k sub v s) = Some s' \<Longrightarrow> evolves s s'"
proof (induction k p v s and k p s and k subs v s and k sub v s
       arbitrary: s' and s' and s' and s'
       rule: setter_BDN_NOTIFY_PROPERTY_CHANGED_notify_call.induct)
  case (1 k p v s)
  show ?case
  proof (cases "heap s p")
    case None
    with "1.prems" show ?thesis by (simp add: setter.simps)
  next
    case (Some pr)
    show ?thesis
    proof (cases "readValue pr = v")
      case True
      with Some "1.prems" show ?thesis by (simp add: setter.simps evolves_refl)
    next
      case False
      with Some "1.prems"
      have "final (BDN_NOTIFY_PROPERTY_CHANGED k p (s\<lparr>heap := (heap s)(p \<mapsto> writeValue pr v)\<rparr>)) = Some s'"
        by (simp add: setter.simps)
      from "1.IH"[OF Some False this] evolves_write[OF Some]
      show ?thesis by (blast intro: evolves_trans)
    qed
  qed
next
  case (2 k p s)
  from "2.prems" obtain n s1 w where
    pc: "propertyChanged p s = Some (n, s1)" and g: "getter p s1 = Some w"
    and r: "final (notify k (subscribers n) w s1) = Some s'"
    by (auto simp: BDN_NOTIFY_PROPERTY_CHANGED.simps split: option.splits)
  from "2.IH"[OF pc refl g r] evolves_propertyChanged[OF pc]
  show ?case by (blast intro: evolves_trans)
next
  case (3 k v s)
  then show ?case by (simp add: evolves_refl)
next
  case (4 k sub subs v s)
  show ?case
  proof (cases "call k sub v s")
    case (Returned s1)
    with "4.prems" have "final (notify k subs v s1) = Some s'" by simp
    from "4.IH"(2)[OF Returned this] "4.IH"(1)[of s1] Returned
    show ?thesis by (auto intro: evolves_trans)
  next
    case (Threw e s1)
    with "4.prems" "4.IH"(1)[of s1] show ?thesis by simp
  qed (use "4.prems" in simp_all)
next
  case (5 sub v s)
  then show ?case by simp
next
  case (6 k weakOwner setterMethod v s)
  then show ?case by (auto simp: evolves_refl split: if_splits)
next
  case (7 k weakOwner setterMethod filterFunc v s)
  then show ?case by (auto simp: evolves_refl split: if_splits)
next
  case (8 k pOwner setterMethod filterFunc v s)
  then show ?case by (auto split: if_splits)
next
  case (9 k tag v s)
  then show ?case by (auto simp: evolves_log)
qed

lemma subscribersOf_evolves:
  assumes "evolves s s'"
  shows "subscribersOf p s' = subscribersOf p s"
proof (cases "heap s p")
  case None
  with evolves_dom[OF assms, of p] show ?thesis by (simp add: subscribersOf_def)
next
  case (Some pr)
  from evolves_prop[OF assms Some] obtain pr' where
    "heap s' p = Some pr'" "keeps (pPropertyChanged pr) (pPropertyChanged pr')" by blast
  with Some show ?thesis
    by (cases "pPropertyChanged pr"; cases "pPropertyChanged pr'")
       (auto simp: subscribersOf_def keeps_def)
qed

lemma closedRegion_evolves: "closedRegion R s \<Longrightarrow> evolves s s' \<Longrightarrow> closedRegion R s'"
  by (simp add: closedRegion_def subscribersOf_evolves)

lemma unchangedOutside_refl: "unchangedOutside R s s"
  by (simp add: unchangedOutside_def)

lemma unchangedOutside_trans:
  "unchangedOutside R s t \<Longrightarrow> unchangedOutside R t u \<Longrightarrow> unchangedOutside R s u"
  by (simp add: unchangedOutside_def)

lemma propertyChanged_subscribers:
  "propertyChanged p s = Some (n, s1) \<Longrightarrow> subscribers n = subscribersOf p s"
  by (auto simp: propertyChanged_def subscribersOf_def Let_def split: option.splits)

lemma propertyChanged_outside:
  "propertyChanged p s = Some (n, s1) \<Longrightarrow> p \<in> R \<Longrightarrow> unchangedOutside R s s1"
  by (auto simp: propertyChanged_def unchangedOutside_def Let_def split: option.splits)

lemma footprint:
  "final (setter k p v s) = Some s' \<Longrightarrow> closedRegion R s \<Longrightarrow> p \<in> R \<Longrightarrow> unchangedOutside R s s'"
  "final (BDN_NOTIFY_PROPERTY_CHANGED k p s) = Some s' \<Longrightarrow> closedRegion R s \<Longrightarrow> p \<in> R
     \<Longrightarrow> unchangedOutside R s s'"
  "final (notify k subs v s) = Some s' \<Longrightarrow> closedRegion R s \<Longrightarrow> into R subs
     \<Longrightarrow> unchangedOutside R s s'"
  "final (call k sub v s) = Some s' \<Longrightarrow> closedRegion R s \<Longrightarrow> into R [sub]
     \<Longrightarrow> unchangedOutside R s s'"
proof (induction k p v s and k p s and k subs v s and k sub v s
       arbitrary: s' and s' and s' and s'
       rule: setter_BDN_NOTIFY_PROPERTY_CHANGED_notify_call.induct)
  case (1 k p v s)
  show ?case
  proof (cases "heap s p")
    case None
    with "1.prems" show ?thesis by (simp add: setter.simps)
  next
    case (Some pr)
    show ?thesis
    proof (cases "readValue pr = v")
      case True
      with Some "1.prems" show ?thesis by (simp add: setter.simps unchangedOutside_refl)
    next
      case False
      let ?s0 = "s\<lparr>heap := (heap s)(p \<mapsto> writeValue pr v)\<rparr>"
      from False Some "1.prems"
      have r: "final (BDN_NOTIFY_PROPERTY_CHANGED k p ?s0) = Some s'"
        by (simp add: setter.simps)
      have c: "closedRegion R ?s0"
        using closedRegion_evolves[OF "1.prems"(2) evolves_write[OF Some]] .
      have "unchangedOutside R s ?s0" using "1.prems"(3) by (auto simp: unchangedOutside_def)
      with "1.IH"[OF Some False r c "1.prems"(3)]
      show ?thesis by (blast intro: unchangedOutside_trans)
    qed
  qed
next
  case (2 k p s)
  from "2.prems"(1) obtain n s1 w where
    pc: "propertyChanged p s = Some (n, s1)" and g: "getter p s1 = Some w"
    and r: "final (notify k (subscribers n) w s1) = Some s'"
    by (auto simp: BDN_NOTIFY_PROPERTY_CHANGED.simps split: option.splits)
  have c: "closedRegion R s1"
    using closedRegion_evolves[OF "2.prems"(2) evolves_propertyChanged[OF pc]] .
  have i: "into R (subscribers n)"
    using propertyChanged_subscribers[OF pc] "2.prems"(2,3) by (simp add: closedRegion_def)
  from "2.IH"[OF pc refl g r c i] propertyChanged_outside[OF pc "2.prems"(3)]
  show ?case by (blast intro: unchangedOutside_trans)
next
  case (3 k v s)
  then show ?case by (simp add: unchangedOutside_refl)
next
  case (4 k sub subs v s)
  from "4.prems"(3) have i1: "into R [sub]" and i2: "into R subs" by (simp_all add: into_def)
  show ?case
  proof (cases "call k sub v s")
    case (Returned s1)
    with "4.prems" have r: "final (notify k subs v s1) = Some s'" by simp
    from Returned have f1: "final (call k sub v s) = Some s1" by simp
    have c: "closedRegion R s1" using closedRegion_evolves[OF "4.prems"(2) frame(4)[OF f1]] .
    from "4.IH"(2)[OF Returned r c i2] "4.IH"(1)[OF f1 "4.prems"(2) i1]
    show ?thesis by (blast intro: unchangedOutside_trans)
  next
    case (Threw e s1)
    with "4.prems" "4.IH"(1)[of s1, OF _ "4.prems"(2) i1] show ?thesis by simp
  qed (use "4.prems" in simp_all)
next
  case (5 sub v s)
  then show ?case by simp
next
  case (6 k weakOwner setterMethod v s)
  then show ?case by (auto simp: unchangedOutside_refl into_def split: if_splits)
next
  case (7 k weakOwner setterMethod filterFunc v s)
  then show ?case by (auto simp: unchangedOutside_refl into_def split: if_splits)
next
  case (8 k pOwner setterMethod filterFunc v s)
  then show ?case by (auto simp: into_def split: if_splits)
next
  case (9 k tag v s)
  then show ?case by (auto simp: unchangedOutside_def)
qed

lemma plainRegion_closed: "plainRegion R s \<Longrightarrow> closedRegion R s"
  by (simp add: plainRegion_def)

lemma plainRegion_evolves:
  assumes "plainRegion R s" and "evolves s s'"
  shows "plainRegion R s'"
  unfolding plainRegion_def
proof (intro conjI ballI allI impI)
  show "closedRegion R s'" by (rule closedRegion_evolves[OF plainRegion_closed[OF assms(1)] assms(2)])
next
  fix p pr' assume p: "p \<in> R" and h: "heap s' p = Some pr'"
  from evolves_dom[OF assms(2), of p] h obtain pr where s: "heap s p = Some pr"
    by (cases "heap s p") simp_all
  from evolves_prop[OF assms(2) s] h have "accessors pr' = accessors pr" by auto
  with assms(1) p s show "accessors pr' = BDN_PROPERTY" by (simp add: plainRegion_def)
next
  fix p assume "p \<in> R"
  with assms show "list_all plainSubscriber (subscribersOf p s')"
    by (simp add: plainRegion_def subscribersOf_evolves)
qed

lemma writesOnly_refl: "writesOnly v s s"
  by (simp add: writesOnly_def)

lemma writesOnly_trans: "writesOnly v s t \<Longrightarrow> writesOnly v t u \<Longrightarrow> writesOnly v s u"
  unfolding writesOnly_def by metis

lemma writesOnly_keeps: "writesOnly v s s' \<Longrightarrow> getter q s = Some v \<Longrightarrow> getter q s' = Some v"
  unfolding writesOnly_def by metis

lemma plain_store:
  assumes "plainRegion R s" and "p \<in> R" and "heap s p = Some pr"
  shows "getter q (s\<lparr>heap := (heap s)(p \<mapsto> writeValue pr v)\<rparr>) = (if q = p then Some v else getter q s)"
proof -
  from assms have "accessors pr = BDN_PROPERTY" by (simp add: plainRegion_def)
  then show ?thesis by (simp add: getter_def)
qed

lemma propertyChanged_getter:
  "propertyChanged p s = Some (n, s1) \<Longrightarrow> getter q s1 = getter q s"
  by (auto simp: propertyChanged_def getter_def Let_def split: option.splits accessors.splits)

lemma plain_call_cases:
  assumes "plainSubscriber sub"
  obtains (weak) ow m where "sub = WeakSubscriber ow m" | (cb) t where "sub = Callback t"
  using assms by (cases sub) simp_all

lemma plain_values:
  "final (setter k p v s) = Some s' \<Longrightarrow> plainRegion R s \<Longrightarrow> p \<in> R \<Longrightarrow> writesOnly v s s'"
  "final (BDN_NOTIFY_PROPERTY_CHANGED k p s) = Some s' \<Longrightarrow> plainRegion R s \<Longrightarrow> p \<in> R
     \<Longrightarrow> getter p s = Some w \<Longrightarrow> writesOnly w s s'"
  "final (notify k subs v s) = Some s' \<Longrightarrow> plainRegion R s \<Longrightarrow> into R subs
     \<Longrightarrow> list_all plainSubscriber subs \<Longrightarrow> writesOnly v s s'"
  "final (call k sub v s) = Some s' \<Longrightarrow> plainRegion R s \<Longrightarrow> into R [sub]
     \<Longrightarrow> plainSubscriber sub \<Longrightarrow> writesOnly v s s'"
proof (induction k p v s and k p s and k subs v s and k sub v s
       arbitrary: s' and s' w and s' and s'
       rule: setter_BDN_NOTIFY_PROPERTY_CHANGED_notify_call.induct)
  case (1 k p v s)
  show ?case
  proof (cases "heap s p")
    case None
    with "1.prems" show ?thesis by (simp add: setter.simps)
  next
    case (Some pr)
    show ?thesis
    proof (cases "readValue pr = v")
      case True
      with Some "1.prems" show ?thesis by (simp add: setter.simps writesOnly_refl)
    next
      case False
      let ?s0 = "s\<lparr>heap := (heap s)(p \<mapsto> writeValue pr v)\<rparr>"
      from False Some "1.prems"
      have r: "final (BDN_NOTIFY_PROPERTY_CHANGED k p ?s0) = Some s'"
        by (simp add: setter.simps)
      have c: "plainRegion R ?s0"
        using plainRegion_evolves[OF "1.prems"(2) evolves_write[OF Some]] .
      have g: "getter q ?s0 = (if q = p then Some v else getter q s)" for q
        using plain_store[OF "1.prems"(2,3) Some] .
      then have "writesOnly v s ?s0" by (simp add: writesOnly_def)
      moreover from g have "getter p ?s0 = Some v" by simp
      from "1.IH"[OF Some False r c "1.prems"(3) this] have "writesOnly v ?s0 s'" .
      ultimately show ?thesis by (rule writesOnly_trans)
    qed
  qed
next
  case (2 k p s)
  from "2.prems"(1) obtain n s1 w' where
    pc: "propertyChanged p s = Some (n, s1)" and g: "getter p s1 = Some w'"
    and r: "final (notify k (subscribers n) w' s1) = Some s'"
    by (auto simp: BDN_NOTIFY_PROPERTY_CHANGED.simps split: option.splits)
  from g "2.prems"(4) propertyChanged_getter[OF pc, of p] have w: "w' = w" by simp
  have c: "plainRegion R s1"
    using plainRegion_evolves[OF "2.prems"(2) evolves_propertyChanged[OF pc]] .
  have i: "into R (subscribers n)" "list_all plainSubscriber (subscribers n)"
    using propertyChanged_subscribers[OF pc] "2.prems"(2,3)
    by (simp_all add: plainRegion_def closedRegion_def)
  from "2.IH"[OF pc refl g r c i] w have "writesOnly w s1 s'" by simp
  moreover have "writesOnly w s s1"
    using propertyChanged_getter[OF pc] by (simp add: writesOnly_def)
  ultimately show ?case by (blast intro: writesOnly_trans)
next
  case (3 k v s)
  then show ?case by (simp add: writesOnly_refl)
next
  case (4 k sub subs v s)
  from "4.prems"(3) have i1: "into R [sub]" and i2: "into R subs" by (simp_all add: into_def)
  from "4.prems"(4) have p1: "plainSubscriber sub" and p2: "list_all plainSubscriber subs"
    by simp_all
  show ?case
  proof (cases "call k sub v s")
    case (Returned s1)
    with "4.prems" have r: "final (notify k subs v s1) = Some s'" by simp
    from Returned have f1: "final (call k sub v s) = Some s1" by simp
    have c: "plainRegion R s1" using plainRegion_evolves[OF "4.prems"(2) frame(4)[OF f1]] .
    from "4.IH"(2)[OF Returned r c i2 p2] "4.IH"(1)[OF f1 "4.prems"(2) i1 p1]
    show ?thesis by (blast intro: writesOnly_trans)
  next
    case (Threw e s1)
    with "4.prems" "4.IH"(1)[of s1, OF _ "4.prems"(2) i1 p1] show ?thesis by simp
  qed (use "4.prems" in simp_all)
next
  case (5 sub v s)
  then show ?case by simp
next
  case (6 k weakOwner setterMethod v s)
  then show ?case by (auto simp: writesOnly_refl into_def split: if_splits)
next
  case (7 k weakOwner setterMethod filterFunc v s)
  then show ?case by simp
next
  case (8 k pOwner setterMethod filterFunc v s)
  then show ?case by simp
next
  case (9 k tag v s)
  then show ?case by (auto simp: writesOnly_def getter_def)
qed

lemma plain_setter_stores:
  assumes "final (setter k p v s) = Some s'" and "plainRegion R s" and "p \<in> R"
  shows "getter p s' = Some v"
proof (cases "heap s p")
  case None
  with assms(1) show ?thesis by (simp add: setter.simps)
next
  case (Some pr)
  show ?thesis
  proof (cases "readValue pr = v")
    case True
    with Some assms(1) show ?thesis by (simp add: setter.simps getter_def)
  next
    case False
    let ?s0 = "s\<lparr>heap := (heap s)(p \<mapsto> writeValue pr v)\<rparr>"
    from False Some assms(1)
    have r: "final (BDN_NOTIFY_PROPERTY_CHANGED k p ?s0) = Some s'"
      by (simp add: setter.simps)
    have c: "plainRegion R ?s0"
      using plainRegion_evolves[OF assms(2) evolves_write[OF Some]] .
    have g: "getter p ?s0 = Some v" using plain_store[OF assms(2,3) Some, of p v] by simp
    from writesOnly_keeps[OF plain_values(2)[OF r c assms(3) g] g] show ?thesis .
  qed
qed

lemma plain_notify_delivers:
  assumes "notify k subs v s = Returned s'" and "plainRegion R s" and "into R subs"
    and "list_all plainSubscriber subs" and "WeakSubscriber ow m \<in> set subs"
  shows "getter (ow, m) s' = Some v"
  using assms
proof (induction subs arbitrary: s)
  case Nil
  then show ?case by simp
next
  case (Cons sub subs)
  from Cons.prems(3) have i1: "into R [sub]" and i2: "into R subs" by (simp_all add: into_def)
  from Cons.prems(4) have p1: "plainSubscriber sub" and p2: "list_all plainSubscriber subs"
    by simp_all
  from Cons.prems(1) obtain s1 where c: "call k sub v s = Returned s1"
    and n: "notify k subs v s1 = Returned s'"
    by (auto split: outcome.splits)
  from c have f1: "final (call k sub v s) = Some s1" by simp
  have pl: "plainRegion R s1" using plainRegion_evolves[OF Cons.prems(2) frame(4)[OF f1]] .
  show ?case
  proof (cases "sub = WeakSubscriber ow m")
    case True
    with c obtain k' where k: "k = Suc k'" by (cases k) auto
    from c True k have st: "setter k' (ow, m) v s = Returned s1" by (auto split: if_splits)
    from True i1 have "(ow, m) \<in> R" by (simp add: into_def)
    with plain_setter_stores[of k' "(ow, m)" v s s1 R] st Cons.prems(2)
    have g1: "getter (ow, m) s1 = Some v" by simp
    from n have "final (notify k subs v s1) = Some s'" by simp
    from plain_values(3)[OF this pl i2 p2] have "writesOnly v s1 s'" .
    from writesOnly_keeps[OF this g1] show ?thesis .
  next
    case False
    with Cons.prems(5) have "WeakSubscriber ow m \<in> set subs" by simp
    from Cons.IH[OF n pl i2 p2 this] show ?thesis .
  qed
qed

lemma evolves_live: "evolves s s' \<Longrightarrow> live s' = live s"
  by (simp add: evolves_def)

lemma soundRegion_evolves:
  assumes "soundRegion R s" and "evolves s s'"
  shows "soundRegion R s'"
  unfolding soundRegion_def
proof (intro ballI conjI)
  fix p assume "p \<in> R"
  with assms(1) have "heap s p \<noteq> None" "fst p \<in> live s" by (simp_all add: soundRegion_def)
  with evolves_dom[OF assms(2), of p] evolves_live[OF assms(2)]
  show "heap s' p \<noteq> None" "fst p \<in> live s'" by simp_all
qed

lemma unsettled_mono:
  assumes "writesOnly v s s'"
  shows "unsettled R v s' \<subseteq> unsettled R v s"
proof
  fix q assume "q \<in> unsettled R v s'"
  then have q: "q \<in> R" "getter q s' \<noteq> Some v" by (simp_all add: unsettled_def)
  from assms have "getter q s' = getter q s \<or> getter q s' = Some v"
    unfolding writesOnly_def by blast
  with q show "q \<in> unsettled R v s" by (simp add: unsettled_def)
qed

lemma unsettled_card_mono:
  assumes "finite R" and "writesOnly v s s'"
  shows "card (unsettled R v s') \<le> card (unsettled R v s)"
proof -
  have "finite (unsettled R v s)" using assms(1) by (simp add: unsettled_def)
  from card_mono[OF this unsettled_mono[OF assms(2)]] show ?thesis .
qed

lemma unsettled_store:
  assumes "finite R" and "p \<in> R" and "getter p s \<noteq> Some v"
    and "\<And>q. getter q s0 = (if q = p then Some v else getter q s)"
  shows "card (unsettled R v s0) < card (unsettled R v s)"
proof -
  have fin: "finite (unsettled R v s)" using assms(1) by (simp add: unsettled_def)
  have "unsettled R v s0 \<subseteq> unsettled R v s" using assms(4) by (auto simp: unsettled_def split: if_splits)
  moreover have "p \<in> unsettled R v s" using assms(2,3) by (simp add: unsettled_def)
  moreover have "p \<notin> unsettled R v s0" using assms(4) by (simp add: unsettled_def)
  ultimately have "unsettled R v s0 \<subset> unsettled R v s" by blast
  with fin show ?thesis by (rule psubset_card_mono)
qed

lemma propertyChanged_exists:
  "heap s p = Some pr \<Longrightarrow> \<exists>n s1. propertyChanged p s = Some (n, s1)"
  by (cases "pPropertyChanged pr") (auto simp: propertyChanged_def Let_def)

lemma plain_total:
  "plainRegion R s \<Longrightarrow> soundRegion R s \<Longrightarrow> finite R \<Longrightarrow> p \<in> R
     \<Longrightarrow> card (unsettled R v s) \<le> k \<Longrightarrow> \<exists>s'. setter k p v s = Returned s'"
  "plainRegion R s \<Longrightarrow> soundRegion R s \<Longrightarrow> finite R \<Longrightarrow> p \<in> R \<Longrightarrow> getter p s = Some w
     \<Longrightarrow> card (unsettled R w s) < k \<Longrightarrow> \<exists>s'. BDN_NOTIFY_PROPERTY_CHANGED k p s = Returned s'"
  "plainRegion R s \<Longrightarrow> soundRegion R s \<Longrightarrow> finite R \<Longrightarrow> into R subs
     \<Longrightarrow> list_all plainSubscriber subs
     \<Longrightarrow> card (unsettled R v s) < k \<Longrightarrow> \<exists>s'. notify k subs v s = Returned s'"
  "plainRegion R s \<Longrightarrow> soundRegion R s \<Longrightarrow> finite R \<Longrightarrow> into R [sub]
     \<Longrightarrow> plainSubscriber sub
     \<Longrightarrow> card (unsettled R v s) < k \<Longrightarrow> \<exists>s'. call k sub v s = Returned s'"
proof (induction k p v s and k p s and k subs v s and k sub v s
       arbitrary: and w and and
       rule: setter_BDN_NOTIFY_PROPERTY_CHANGED_notify_call.induct)
  case (1 k p v s)
  from "1.prems"(2,4) obtain pr where Some: "heap s p = Some pr"
    by (auto simp: soundRegion_def)
  show ?case
  proof (cases "readValue pr = v")
    case True
    with Some show ?thesis by (simp add: setter.simps)
  next
    case False
    let ?s0 = "s\<lparr>heap := (heap s)(p \<mapsto> writeValue pr v)\<rparr>"
    have ev: "evolves s ?s0" using evolves_write[OF Some] .
    have g: "getter q ?s0 = (if q = p then Some v else getter q s)" for q
      using plain_store[OF "1.prems"(1,4) Some] .
    from False Some have "getter p s \<noteq> Some v" by (simp add: getter_def)
    from unsettled_store[OF "1.prems"(3,4) this g] "1.prems"(5)
    have c: "card (unsettled R v ?s0) < k" by simp
    from g have gp: "getter p ?s0 = Some v" by simp
    from "1.IH"[OF Some False plainRegion_evolves[OF "1.prems"(1) ev]
        soundRegion_evolves[OF "1.prems"(2) ev] "1.prems"(3,4) gp c]
    show ?thesis using Some False by (simp add: setter.simps)
  qed
next
  case (2 k p s)
  from "2.prems"(2,4) obtain pr where Some: "heap s p = Some pr"
    by (auto simp: soundRegion_def)
  then obtain n s1 where pc: "propertyChanged p s = Some (n, s1)"
    by (cases "pPropertyChanged pr") (auto simp: propertyChanged_def Let_def)
  have ev: "evolves s s1" using evolves_propertyChanged[OF pc] .
  have g: "getter q s1 = getter q s" for q using propertyChanged_getter[OF pc] .
  then have gp: "getter p s1 = Some w" using "2.prems"(5) by simp
  from g have "unsettled R w s1 = unsettled R w s" by (simp add: unsettled_def)
  with "2.prems"(6) have c: "card (unsettled R w s1) < k" by simp
  have i: "into R (subscribers n)" "list_all plainSubscriber (subscribers n)"
    using propertyChanged_subscribers[OF pc] "2.prems"(1,4)
    by (simp_all add: plainRegion_def closedRegion_def)
  from "2.IH"[OF pc refl gp plainRegion_evolves[OF "2.prems"(1) ev]
      soundRegion_evolves[OF "2.prems"(2) ev] "2.prems"(3) i c]
  show ?case using pc gp by (simp add: BDN_NOTIFY_PROPERTY_CHANGED.simps)
next
  case (3 k v s)
  then show ?case by simp
next
  case (4 k sub subs v s)
  from "4.prems"(4) have i1: "into R [sub]" and i2: "into R subs" by (simp_all add: into_def)
  from "4.prems"(5) have p1: "plainSubscriber sub" and p2: "list_all plainSubscriber subs"
    by simp_all
  from "4.IH"(1)[OF "4.prems"(1,2,3) i1 p1 "4.prems"(6)]
  obtain s1 where c: "call k sub v s = Returned s1" by blast
  then have f1: "final (call k sub v s) = Some s1" by simp
  have ev: "evolves s s1" using frame(4)[OF f1] .
  have "writesOnly v s s1" using plain_values(4)[OF f1 "4.prems"(1) i1 p1] .
  from unsettled_card_mono[OF "4.prems"(3) this] "4.prems"(6)
  have cd: "card (unsettled R v s1) < k" by simp
  from "4.IH"(2)[OF c plainRegion_evolves[OF "4.prems"(1) ev]
      soundRegion_evolves[OF "4.prems"(2) ev] "4.prems"(3) i2 p2 cd]
  show ?case using c by simp
next
  case (5 sub v s)
  then show ?case by simp
next
  case (6 k weakOwner setterMethod v s)
  from "6.prems"(4) have r: "(weakOwner, setterMethod) \<in> R" by (simp add: into_def)
  with "6.prems"(2) have l: "\<not> weakOwner \<notin> live s" by (auto simp: soundRegion_def)
  from "6.prems"(6) have "card (unsettled R v s) \<le> k" by simp
  from "6.IH"[OF l "6.prems"(1,2,3) r this] l show ?case by simp
next
  case (7 k weakOwner setterMethod filterFunc v s)
  then show ?case by simp
next
  case (8 k pOwner setterMethod filterFunc v s)
  then show ?case by simp
next
  case (9 k tag v s)
  then show ?case by simp
qed

lemma notify_append:
  "notify k (xs @ ys) v s =
     (case notify k xs v s of
        Returned s1 \<Rightarrow> notify k ys v s1
      | Threw e s1 \<Rightarrow> Threw e s1
      | UndefinedBehaviour \<Rightarrow> UndefinedBehaviour
      | OutOfFuel \<Rightarrow> OutOfFuel)"
  by (induction xs arbitrary: s) (auto split: outcome.splits)

lemma notify_callbacks:
  "0 < k \<Longrightarrow> notify k (map Callback tags) v s =
     Returned (s\<lparr>calls := calls s @ map (\<lambda>t. (t, v)) tags\<rparr>)"
proof (induction tags arbitrary: s)
  case Nil
  then show ?case by simp
next
  case (Cons t tags)
  from Cons.prems obtain k' where k: "k = Suc k'" by (cases k) auto
  from Cons.IH[OF Cons.prems] k show ?case by simp
qed

lemma setter_changed:
  assumes "heap s p = Some pr" and "readValue pr \<noteq> v"
  shows "\<exists>n s0. propertyChanged p (s\<lparr>heap := (heap s)(p \<mapsto> writeValue pr v)\<rparr>) = Some (n, s0) \<and>
           subscribers n = subscribersOf p s \<and>
           getter p s0 = Some (readValue (writeValue pr v)) \<and>
           (\<forall>q. q \<noteq> p \<longrightarrow> heap s0 q = heap s q) \<and>
           calls s0 = calls s \<and> live s0 = live s \<and>
           evolves s s0 \<and>
           setter k p v s = notify k (subscribersOf p s) (readValue (writeValue pr v)) s0"
proof -
  let ?s' = "s\<lparr>heap := (heap s)(p \<mapsto> writeValue pr v)\<rparr>"
  have h: "heap ?s' p = Some (writeValue pr v)" by simp
  from propertyChanged_exists[OF h] obtain n s0 where pc: "propertyChanged p ?s' = Some (n, s0)"
    by blast
  have sub: "subscribers n = subscribersOf p s"
    using propertyChanged_subscribers[OF pc] assms(1)
    by (simp add: subscribersOf_def split: accessors.splits)
  have g: "getter p s0 = Some (readValue (writeValue pr v))"
    using propertyChanged_getter[OF pc, of p] by (simp add: getter_def)
  have o: "\<forall>q. q \<noteq> p \<longrightarrow> heap s0 q = heap s q"
    using pc by (auto simp: propertyChanged_def Let_def split: option.splits)
  have c: "calls s0 = calls s" "live s0 = live s"
    using pc by (auto simp: propertyChanged_def Let_def split: option.splits)
  have e: "evolves s s0"
    using evolves_trans[OF evolves_write[OF assms(1)] evolves_propertyChanged[OF pc]] .
  have "setter k p v s = notify k (subscribersOf p s) (readValue (writeValue pr v)) s0"
    using assms pc g sub by (simp add: setter.simps BDN_NOTIFY_PROPERTY_CHANGED.simps)
  with pc sub g o c e show ?thesis by blast
qed


lemmas run_defs =
  BDN_BIND_TO_PROPERTY_def BDN_BIND_TO_PROPERTY_WITH_FILTER_def BDN_BIND_PROPERTIES_def
  propertyChanged_def subscribe_def underscore_makePropertySubscriber_def
  underscore_makePropertySubscriberWithFilter_def makePropertySubscriberWithFilter_def
  getter_def setter.simps BDN_NOTIFY_PROPERTY_CHANGED.simps Let_def destroy_def
  subscribersOf_def observed_def newProperty_def

lemma staleBinding_scenario:
  "BDN_BIND_TO_PROPERTY 1 (1, ''b'') (0, ''a'') twoObjects = Returned t \<Longrightarrow>
     destroy 1 t = staleBinding"
  by (auto simp: run_defs twoObjects_def staleBinding_def fun_eq_iff)

lemma notify_append_Returned:
  assumes "notify k (xs @ ys) v s = Returned s'"
  shows "\<exists>s1. notify k xs v s = Returned s1 \<and> notify k ys v s1 = Returned s'"
  using assms by (simp add: notify_append split: outcome.splits)

lemma stale_never_returns:
  assumes "ow \<notin> live s"
  shows "notify k (pre @ WeakSubscriber ow m # post) v s \<noteq> Returned s'"
proof
  assume "notify k (pre @ WeakSubscriber ow m # post) v s = Returned s'"
  from notify_append_Returned[OF this] obtain s1 where
    1: "notify k pre v s = Returned s1" and 2: "notify k (WeakSubscriber ow m # post) v s1 = Returned s'"
    by blast
  from 1 have "final (notify k pre v s) = Some s1" by simp
  from evolves_live[OF frame(3)[OF this]] assms have d: "ow \<notin> live s1" by simp
  from 2 obtain s2 where "call k (WeakSubscriber ow m) v s1 = Returned s2"
    by (auto split: outcome.splits)
  with d show False by (cases k) simp_all
qed

lemma stale_throws:
  assumes "heap s p = Some pr" and "readValue pr \<noteq> v"
    and "subscribersOf p s = map Callback tags @ WeakSubscriber ow m # post"
    and "ow \<notin> live s"
  shows "\<exists>s'. setter (Suc k) p v s = Threw DanglingFunctionError s' \<and>
           subscribersOf p s' = subscribersOf p s \<and>
           calls s' = calls s @ map (\<lambda>t. (t, readValue (writeValue pr v))) tags \<and>
           getter p s' = Some (readValue (writeValue pr v)) \<and> ow \<notin> live s' \<and>
           heap s' p \<noteq> None"
proof -
  let ?w = "readValue (writeValue pr v)"
  from setter_changed[OF assms(1,2), of "Suc k"] obtain n s0 where
    g: "getter p s0 = Some ?w" and c: "calls s0 = calls s" and l: "live s0 = live s"
    and e: "evolves s s0"
    and eq: "setter (Suc k) p v s = notify (Suc k) (subscribersOf p s) ?w s0"
    by blast
  let ?s1 = "s0\<lparr>calls := calls s0 @ map (\<lambda>t. (t, ?w)) tags\<rparr>"
  have n1: "notify (Suc k) (map Callback tags) ?w s0 = Returned ?s1"
    by (rule notify_callbacks) simp
  have "setter (Suc k) p v s = Threw DanglingFunctionError ?s1"
    using eq assms(3,4) l n1 by (simp add: notify_append)
  moreover have "evolves s0 ?s1" by (rule evolves_log)
  with e have e1: "evolves s ?s1" by (rule evolves_trans)
  moreover have "getter p ?s1 = Some ?w" using g by (simp add: getter_def)
  moreover have "ow \<notin> live ?s1" using l assms(4) by simp
  moreover have "heap ?s1 p \<noteq> None" using evolves_dom[OF e1, of p] assms(1) by simp
  ultimately show ?thesis using subscribersOf_evolves[OF e1] c by auto
qed

lemma ages_refl: "ages s s"
  by (simp add: ages_def)

lemma ages_trans:
  assumes "ages s t" and "ages t u"
  shows "ages s u"
  unfolding ages_def
proof (intro conjI allI impI)
  fix p assume "heap s p = None"
  with assms show "heap u p = None" unfolding ages_def by blast
next
  fix p pr n pr'
  assume s: "heap s p = Some pr" "pPropertyChanged pr = Some n" and u: "heap u p = Some pr'"
  from assms(2) u obtain pr1 where t: "heap t p = Some pr1"
    unfolding ages_def by (cases "heap t p") (auto simp del: split_paired_All)
  from assms(1) s t obtain n1 where n1: "pPropertyChanged pr1 = Some n1" "address n1 = address n"
    unfolding ages_def by blast
  from assms(2) t n1(1) u obtain n' where "pPropertyChanged pr' = Some n'" "address n' = address n1"
    unfolding ages_def by blast
  with n1 show "\<exists>n'. pPropertyChanged pr' = Some n' \<and> address n' = address n" by simp
qed

lemma ages_evolves:
  assumes "evolves s s'"
  shows "ages s s'"
  unfolding ages_def
proof (intro conjI allI impI)
  fix p assume "heap s p = None"
  with evolves_dom[OF assms, of p] show "heap s' p = None" by simp
next
  fix p pr n pr'
  assume s: "heap s p = Some pr" "pPropertyChanged pr = Some n" and u: "heap s' p = Some pr'"
  from evolves_prop[OF assms s(1)] u have "keeps (pPropertyChanged pr) (pPropertyChanged pr')"
    by auto
  with s(2) show "\<exists>n'. pPropertyChanged pr' = Some n' \<and> address n' = address n"
    by (simp add: keeps_def)
qed

lemma ages_subscribe: "ages s (subscribe p sub s)"
  by (auto simp: ages_def subscribe_def split: option.splits if_splits)

lemma ages_destroy: "ages s (destroy ow s)"
  by (auto simp: ages_def destroy_def split: if_splits)

lemma ages_final_setter: "final (setter k p v s) = Some s' \<Longrightarrow> ages s s'"
  by (rule ages_evolves[OF frame(1)])

lemma ages_bind:
  assumes "final (BDN_BIND_TO_PROPERTY k r sender s) = Some s'"
  shows "ages s s'"
proof -
  from assms obtain n s1 v where pc: "propertyChanged sender s = Some (n, s1)"
    and f: "final (setter k r v (subscribe sender (underscore_makePropertySubscriber (fst r) (snd r)) s1)) = Some s'"
    by (auto simp: BDN_BIND_TO_PROPERTY_def Let_def split: if_splits option.splits)
  from ages_evolves[OF evolves_propertyChanged[OF pc]] ages_subscribe ages_final_setter[OF f]
  show ?thesis by (blast intro: ages_trans)
qed

lemma ages_bind_filter:
  assumes "final (BDN_BIND_TO_PROPERTY_WITH_FILTER k r sender f s) = Some s'"
  shows "ages s s'"
proof -
  from assms obtain n s1 v where pc: "propertyChanged sender s = Some (n, s1)"
    and f: "final (setter k r v (subscribe sender
              (underscore_makePropertySubscriberWithFilter (fst r) (snd r) f) s1)) = Some s'"
    by (auto simp: BDN_BIND_TO_PROPERTY_WITH_FILTER_def Let_def split: if_splits option.splits)
  from ages_evolves[OF evolves_propertyChanged[OF pc]] ages_subscribe ages_final_setter[OF f]
  show ?thesis by (blast intro: ages_trans)
qed

lemma ages_bind_properties:
  assumes "final (BDN_BIND_PROPERTIES k a b s) = Some s'"
  shows "ages s s'"
proof (cases "BDN_BIND_TO_PROPERTY k a b s")
  case (Returned s1)
  with assms have "final (BDN_BIND_TO_PROPERTY k b a s1) = Some s'"
    by (simp add: BDN_BIND_PROPERTIES_def)
  from ages_bind[OF this] ages_bind[of k a b s s1] Returned show ?thesis
    by (auto intro: ages_trans)
next
  case (Threw e s1)
  with assms ages_bind[of k a b s s1] show ?thesis by (simp add: BDN_BIND_PROPERTIES_def)
qed (use assms in \<open>simp_all add: BDN_BIND_PROPERTIES_def\<close>)

lemma ages_exec: "exec k c s = Some s' \<Longrightarrow> ages s s'"
proof (cases c)
  case (Changed p)
  assume "exec k c s = Some s'"
  with Changed obtain n where "propertyChanged p s = Some (n, s')" by auto
  from ages_evolves[OF evolves_propertyChanged[OF this]] show ?thesis .
next
  case (Subscribe p sub)
  assume "exec k c s = Some s'"
  with Subscribe obtain n s1 where pc: "propertyChanged p s = Some (n, s1)"
    and s': "s' = subscribe p sub s1" by auto
  from ages_evolves[OF evolves_propertyChanged[OF pc]] ages_subscribe[of s1 p sub] s'
  show ?thesis by (auto intro: ages_trans)
qed (auto intro: ages_final_setter ages_bind ages_bind_filter ages_bind_properties ages_destroy)

lemma ages_run: "run k cs s = Some s' \<Longrightarrow> ages s s'"
proof (induction cs arbitrary: s)
  case Nil
  then show ?case by (simp add: ages_refl)
next
  case (Cons c cs)
  from Cons.prems obtain s1 where e: "exec k c s = Some s1" and r: "run k cs s1 = Some s'"
    by (auto split: option.splits)
  from ages_exec[OF e] Cons.IH[OF r] show ?case by (rule ages_trans)
qed

lemma call_numeral: "call (numeral w) sub v s = call (Suc (pred_numeral w)) sub v s"
  by (simp only: numeral_eq_Suc)

lemma closedRegion_cong:
  assumes "\<forall>p\<in>R. heap s' p = heap s p"
  shows "closedRegion R s' = closedRegion R s"
  using assms by (simp add: closedRegion_def subscribersOf_def)

lemma propertyChanged_elsewhere:
  "propertyChanged p s = Some (n, s1) \<Longrightarrow> q \<noteq> p \<Longrightarrow> heap s1 q = heap s q"
  by (auto simp: propertyChanged_def Let_def split: option.splits)

lemma subscribe_elsewhere: "q \<noteq> p \<Longrightarrow> heap (subscribe p sub s) q = heap s q"
  by (auto simp: subscribe_def split: option.splits)

lemma subscribe_getter: "getter q (subscribe p sub s) = getter q s"
  by (auto simp: subscribe_def getter_def split: option.splits accessors.splits)


lemma getter_heap: "heap s' q = heap s q \<Longrightarrow> getter q s' = getter q s"
  by (simp add: getter_def)

lemma bind_unfold:
  assumes "final (BDN_BIND_TO_PROPERTY k receiver sender s) = Some s'"
  obtains n s1 v where "propertyChanged sender s = Some (n, s1)"
    and "getter sender s = Some v"
    and "final (setter k receiver v
           (subscribe sender (underscore_makePropertySubscriber (fst receiver) (snd receiver)) s1)) = Some s'"
proof -
  from assms obtain n s1 v where pc: "propertyChanged sender s = Some (n, s1)"
    and g: "getter sender (subscribe sender
              (underscore_makePropertySubscriber (fst receiver) (snd receiver)) s1) = Some v"
    and f: "final (setter k receiver v
           (subscribe sender (underscore_makePropertySubscriber (fst receiver) (snd receiver)) s1)) = Some s'"
    by (auto simp: BDN_BIND_TO_PROPERTY_def Let_def split: if_splits option.splits)
  from g have "getter sender s = Some v"
    by (simp add: subscribe_getter propertyChanged_getter[OF pc])
  with pc f that show ?thesis by blast
qed

lemma unchangedOutsideD: "unchangedOutside R s s' \<Longrightarrow> q \<notin> R \<Longrightarrow> heap s' q = heap s q"
  unfolding unchangedOutside_def by blast

lemma sets_outside:
  assumes "closedRegion R s" and "list_all (setsIn R) cs" and "run j cs s = Some s'"
    and "x \<notin> R"
  shows "heap s' x = heap s x \<and> closedRegion R s'"
  using assms
proof (induction cs arbitrary: s)
  case Nil
  then show ?case by simp
next
  case (Cons c cs)
  from Cons.prems(2) obtain q v where c: "c = Set q v" and q: "q \<in> R" and rest: "list_all (setsIn R) cs"
    by (cases c) auto
  from Cons.prems(3) c obtain s1 where e: "final (setter j q v s) = Some s1"
    and r: "run j cs s1 = Some s'"
    by (auto split: option.splits)
  from unchangedOutsideD[OF footprint(1)[OF e Cons.prems(1) q] Cons.prems(4)]
  have h: "heap s1 x = heap s x" .
  have cl: "closedRegion R s1" using closedRegion_evolves[OF Cons.prems(1) frame(1)[OF e]] .
  from Cons.IH[OF cl rest r Cons.prems(4)] h show ?case by simp
qed

lemma notify_prefix:
  "\<exists>m ss. m \<le> length subs \<and> length ss = Suc m \<and> ss ! 0 = s \<and>
     (\<forall>i<m. call k (subs ! i) v (ss ! i) = Returned (ss ! Suc i)) \<and>
     (m = length subs \<longrightarrow> notify k subs v s = Returned (ss ! m)) \<and>
     (m < length subs \<longrightarrow>
        notify k subs v s = call k (subs ! m) v (ss ! m) \<and>
        (\<forall>t. notify k subs v s \<noteq> Returned t))"
proof (induction subs arbitrary: s)
  case Nil
  show ?case by (intro exI[of _ 0] exI[of _ "[s]"]) simp
next
  case (Cons sub subs)
  show ?case
  proof (cases "\<exists>s1. call k sub v s = Returned s1")
    case True
    then obtain s1 where c: "call k sub v s = Returned s1" by blast
    from Cons.IH[of s1] obtain m ss where m: "m \<le> length subs" "length ss = Suc m" "ss ! 0 = s1"
      and ch: "\<forall>i<m. call k (subs ! i) v (ss ! i) = Returned (ss ! Suc i)"
      and full: "m = length subs \<longrightarrow> notify k subs v s1 = Returned (ss ! m)"
      and stop: "m < length subs \<longrightarrow>
        notify k subs v s1 = call k (subs ! m) v (ss ! m) \<and>
        (\<forall>t. notify k subs v s1 \<noteq> Returned t)"
      by blast
    have ch': "\<forall>i<Suc m. call k ((sub # subs) ! i) v ((s # ss) ! i) = Returned ((s # ss) ! Suc i)"
    proof (intro allI impI)
      fix i assume i: "i < Suc m"
      show "call k ((sub # subs) ! i) v ((s # ss) ! i) = Returned ((s # ss) ! Suc i)"
      proof (cases i)
        case 0
        with c m(3) show ?thesis by simp
      next
        case (Suc j)
        with i ch show ?thesis by simp
      qed
    qed
    from c have n: "notify k (sub # subs) v s = notify k subs v s1" by simp
    have full': "Suc m = length (sub # subs) \<longrightarrow>
        notify k (sub # subs) v s = Returned ((s # ss) ! Suc m)"
      using full n by (simp del: notify.simps)
    have stop': "Suc m < length (sub # subs) \<longrightarrow>
        notify k (sub # subs) v s = call k ((sub # subs) ! Suc m) v ((s # ss) ! Suc m) \<and>
        (\<forall>t. notify k (sub # subs) v s \<noteq> Returned t)"
    proof (intro impI)
      assume "Suc m < length (sub # subs)"
      then have "m < length subs" by simp
      with stop have a: "notify k subs v s1 = call k (subs ! m) v (ss ! m)"
        and b: "\<forall>t. notify k subs v s1 \<noteq> Returned t" by blast+
      from a b n
      show "notify k (sub # subs) v s = call k ((sub # subs) ! Suc m) v ((s # ss) ! Suc m) \<and>
        (\<forall>t. notify k (sub # subs) v s \<noteq> Returned t)"
        by (simp del: notify.simps)
    qed
    have len: "Suc m \<le> length (sub # subs)" "length (s # ss) = Suc (Suc m)" "(s # ss) ! 0 = s"
      using m by simp_all
    from len ch' full' stop' show ?thesis
      by (intro exI[of _ "Suc m"] exI[of _ "s # ss"]) blast
  next
    case False
    then have "notify k (sub # subs) v s = call k sub v s"
      by (cases "call k sub v s") simp_all
    with False show ?thesis by (intro exI[of _ 0] exI[of _ "[s]"]) (simp del: notify.simps)
  qed
qed

lemma unsettled_card: "finite R \<Longrightarrow> card (unsettled R v s) \<le> card R"
  by (rule card_mono) (auto simp: unsettled_def)


lemma setter_changed_plain:
  assumes h: "heap s p = Some pr" and ne: "readValue pr \<noteq> v"
    and pl: "plainRegion R s" and so: "soundRegion R s" and fin: "finite R"
    and io: "into R (subscribersOf p s)" and po: "list_all plainSubscriber (subscribersOf p s)"
    and k: "card R < k"
  shows "\<exists>s'. setter k p v s = Returned s' \<and>
           (\<forall>ow m. WeakSubscriber ow m \<in> set (subscribersOf p s) \<longrightarrow>
              getter (ow, m) s' = Some (readValue (writeValue pr v)))"
proof -
  let ?w = "readValue (writeValue pr v)"
  from setter_changed[OF h ne, of k] obtain n s0 where e: "evolves s s0"
    and eq: "setter k p v s = notify k (subscribersOf p s) ?w s0"
    by blast
  have pl0: "plainRegion R s0" using plainRegion_evolves[OF pl e] .
  have so0: "soundRegion R s0" using soundRegion_evolves[OF so e] .
  from unsettled_card[OF fin, of ?w s0] k have "card (unsettled R ?w s0) < k" by simp
  from plain_total(3)[OF pl0 so0 fin io po this] obtain s' where
    n: "notify k (subscribersOf p s) ?w s0 = Returned s'" by blast
  have "getter (ow, m) s' = Some ?w" if "WeakSubscriber ow m \<in> set (subscribersOf p s)" for ow m
    using plain_notify_delivers[OF n pl0 io po that] .
  with eq n show ?thesis by simp
qed

lemma propertyChanged_pointer:
  "propertyChanged p s = Some (n, s1) \<Longrightarrow>
     \<exists>pr1. heap s1 p = Some pr1 \<and> pPropertyChanged pr1 = Some n"
  by (auto simp: propertyChanged_def Let_def split: option.splits)

lemma subscribersOf_subscribe:
  "subscribersOf q (subscribe p sub s) = subscribersOf q s \<or>
   (q = p \<and> subscribersOf q (subscribe p sub s) = subscribersOf q s @ [sub])"
  by (auto simp: subscribersOf_def subscribe_def split: option.splits)

lemma subscribersOf_subscribe_same:
  "heap s p = Some pr \<Longrightarrow> pPropertyChanged pr = Some n \<Longrightarrow>
     subscribersOf p (subscribe p sub s) = subscribersOf p s @ [sub]"
  by (simp add: subscribersOf_def subscribe_def)

lemma subscribe_accessors:
  "heap (subscribe p sub s) q = Some pr' \<Longrightarrow>
     \<exists>pr. heap s q = Some pr \<and> accessors pr' = accessors pr"
  by (auto simp: subscribe_def split: option.splits if_splits)


lemma into_append: "into R (xs @ ys) = (into R xs \<and> into R ys)"
  by (auto simp: into_def)

lemma plainRegion_subscribe:
  assumes "plainRegion R s" and "plainSubscriber sub" and "into R [sub]"
  shows "plainRegion R (subscribe p sub s)"
  unfolding plainRegion_def closedRegion_def
proof (intro conjI ballI allI impI)
  fix q assume q: "q \<in> R"
  from assms(1) q have i: "into R (subscribersOf q s)"
    by (simp add: plainRegion_def closedRegion_def)
  with subscribersOf_subscribe[of q p sub s] assms(3)
  show "into R (subscribersOf q (subscribe p sub s))" by (auto simp: into_append)
  from assms(1) q have "list_all plainSubscriber (subscribersOf q s)"
    by (simp add: plainRegion_def)
  with subscribersOf_subscribe[of q p sub s] assms(2)
  show "list_all plainSubscriber (subscribersOf q (subscribe p sub s))" by auto
next
  fix q pr' assume q: "q \<in> R" and h: "heap (subscribe p sub s) q = Some pr'"
  from subscribe_accessors[OF h] obtain pr where "heap s q = Some pr" "accessors pr' = accessors pr"
    by blast
  with assms(1) q show "accessors pr' = BDN_PROPERTY" by (simp add: plainRegion_def)
qed






lemma subscribed_elsewhere:
  assumes "propertyChanged sender s = Some (n, s1)" and "sender \<notin> R"
  shows "\<forall>p\<in>R. heap (subscribe sender sub s1) p = heap s p"
proof
  fix p assume "p \<in> R"
  with assms(2) have "p \<noteq> sender" by blast
  with propertyChanged_elsewhere[OF assms(1) this] subscribe_elsewhere[OF this, of sub s1]
  show "heap (subscribe sender sub s1) p = heap s p" by simp
qed











section \<open>The claims of the specification\<close>

text \<open>
  C1: for a property defined with \<^verbatim>\<open>BDN_PROPERTY\<close> whose current value equals \<open>v\<close>, the
  setter called with \<open>v\<close> returns with the state as it was: the stored value, the notifier
  pointer and the call log are unchanged, so no subscriber was called. This holds at every
  depth bound, also \<open>0\<close>: the notifier is never reached.
\<close>

theorem setter_equal_value_noop:
  assumes "heap s p = Some pr" and "accessors pr = BDN_PROPERTY" and "getter p s = Some v"
  shows "setter k p v s = Returned s"
  using assms by (simp add: getter_def setter.simps)

theorem setter_equal_value_noop_witness:
  "heap twoObjects (0, ''a'') = Some (observed 5 [Callback 1, Callback 2]) \<and>
   accessors (observed 5 [Callback 1, Callback 2] :: int property) = BDN_PROPERTY \<and>
   getter (0, ''a'') twoObjects = Some 5 \<and>
   setter 3 (0, ''a'') 5 twoObjects = Returned twoObjects"
proof -
  have h: "heap twoObjects (0, ''a'') = Some (observed 5 [Callback 1, Callback 2])"
    by (simp add: twoObjects_def)
  have a: "accessors (observed 5 [Callback 1, Callback 2] :: int property) = BDN_PROPERTY"
    by (simp add: observed_def)
  have g: "getter (0, ''a'') twoObjects = Some 5"
    by (simp add: getter_def twoObjects_def observed_def)
  from setter_equal_value_noop[OF h a g, of 3] h a g show ?thesis by simp
qed

text \<open>
  C4: let a subscription made by \<^verbatim>\<open>_makePropertySubscriber\<close> (the one \<^verbatim>\<open>BDN_BIND_TO_PROPERTY\<close>
  registers) be on the sender's notifier, with its receiver owner destroyed. Calling the
  subscription throws \<^verbatim>\<open>DanglingFunctionError\<close> and changes nothing. A setter call that
  changes the sender's value never returns normally, at any depth; whenever it throws, the
  sender's subscriber list is the one before the call, so the broken subscription is still
  registered. When the subscribers before the stale one are client callbacks, the setter
  throws \<^verbatim>\<open>DanglingFunctionError\<close> after the new value was stored and those callbacks ran,
  and the next change of the sender throws again.
\<close>

theorem stale_subscription_throws:
  assumes "heap s p = Some pr" and "readValue pr \<noteq> v"
    and "subscribersOf p s = pre @ underscore_makePropertySubscriber ow m # post"
    and "ow \<notin> live s"
  shows "call (Suc k) (underscore_makePropertySubscriber ow m) w s = Threw DanglingFunctionError s \<and>
         (\<forall>j s'. setter j p v s \<noteq> Returned s') \<and>
         (\<forall>j e s'. setter j p v s = Threw e s' \<longrightarrow>
            e = DanglingFunctionError \<and> subscribersOf p s' = subscribersOf p s \<and> ow \<notin> live s') \<and>
         (\<forall>tags. pre = map Callback tags \<longrightarrow>
            (\<exists>s'. setter (Suc k) p v s = Threw DanglingFunctionError s' \<and>
                  getter p s' = Some (readValue (writeValue pr v)) \<and>
                  subscribersOf p s' = subscribersOf p s \<and>
                  calls s' = calls s @ map (\<lambda>t. (t, readValue (writeValue pr v))) tags \<and>
                  (\<forall>v'. getter p s' \<noteq> Some v' \<longrightarrow>
                     (\<exists>s''. setter (Suc k) p v' s' = Threw DanglingFunctionError s''))))"
proof (intro conjI allI impI)
  show "call (Suc k) (underscore_makePropertySubscriber ow m) w s = Threw DanglingFunctionError s"
    using assms(4) by (simp add: underscore_makePropertySubscriber_def)
next
  fix j s'
  from setter_changed[OF assms(1,2), of j] obtain s0 where l: "live s0 = live s"
    and eq: "setter j p v s = notify j (subscribersOf p s) (readValue (writeValue pr v)) s0"
    by blast
  from l assms(4) have "ow \<notin> live s0" by simp
  from stale_never_returns[OF this] eq assms(3)
  show "setter j p v s \<noteq> Returned s'" by (simp add: underscore_makePropertySubscriber_def)
next
  fix j e s' assume t: "setter j p v s = Threw e s'"
  then have "final (setter j p v s) = Some s'" by simp
  from frame(1)[OF this] have e: "evolves s s'" .
  show "e = DanglingFunctionError" by (cases e) simp
  show "subscribersOf p s' = subscribersOf p s" using subscribersOf_evolves[OF e] .
  show "ow \<notin> live s'" using evolves_live[OF e] assms(4) by simp
next
  fix tags assume pre: "pre = map Callback tags"
  from assms(3) pre have sb: "subscribersOf p s = map Callback tags @ WeakSubscriber ow m # post"
    by (simp add: underscore_makePropertySubscriber_def)
  from stale_throws[OF assms(1,2) sb assms(4), of k] obtain s' where
    1: "setter (Suc k) p v s = Threw DanglingFunctionError s'"
    and 2: "subscribersOf p s' = subscribersOf p s"
    and 3: "calls s' = calls s @ map (\<lambda>t. (t, readValue (writeValue pr v))) tags"
    and 4: "getter p s' = Some (readValue (writeValue pr v))" and 5: "ow \<notin> live s'"
    and 6: "heap s' p \<noteq> None"
    by blast
  have "\<exists>s''. setter (Suc k) p v' s' = Threw DanglingFunctionError s''" if "getter p s' \<noteq> Some v'" for v'
  proof -
    from 6 obtain pr' where h: "heap s' p = Some pr'" by blast
    with that have "readValue pr' \<noteq> v'" by (simp add: getter_def)
    from stale_throws[OF h this _ 5, of tags m post k] 2 sb show ?thesis by auto
  qed
  with 1 2 3 4
  show "\<exists>s'. setter (Suc k) p v s = Threw DanglingFunctionError s' \<and>
                  getter p s' = Some (readValue (writeValue pr v)) \<and>
                  subscribersOf p s' = subscribersOf p s \<and>
                  calls s' = calls s @ map (\<lambda>t. (t, readValue (writeValue pr v))) tags \<and>
                  (\<forall>v'. getter p s' \<noteq> Some v' \<longrightarrow>
                     (\<exists>s''. setter (Suc k) p v' s' = Threw DanglingFunctionError s''))"
    by blast
qed

theorem stale_subscription_throws_witness:
  "map_option (destroy 1) (final (BDN_BIND_TO_PROPERTY 1 (1, ''b'') (0, ''a'') twoObjects)) =
     Some staleBinding \<and>
   heap staleBinding (0, ''a'') = Some (observed 5 [Callback 1, Callback 2, WeakSubscriber 1 ''b'']) \<and>
   readValue (observed 5 [Callback 1, Callback 2, WeakSubscriber 1 ''b''] :: int property) \<noteq> 6 \<and>
   subscribersOf (0, ''a'') staleBinding =
     [Callback 1, Callback 2] @ underscore_makePropertySubscriber 1 ''b'' # [] \<and>
   1 \<notin> live staleBinding \<and>
   (\<exists>s'. setter 1 (0, ''a'') 6 staleBinding = Threw DanglingFunctionError s' \<and>
         getter (0, ''a'') s' = Some 6 \<and> calls s' = [(1, 6), (2, 6)] \<and>
         subscribersOf (0, ''a'') s' = [Callback 1, Callback 2, WeakSubscriber 1 ''b''])"
proof -
  have h: "heap staleBinding (0, ''a'') =
      Some (observed 5 [Callback 1, Callback 2, WeakSubscriber 1 ''b''])"
    by (simp add: staleBinding_def)
  have r: "readValue (observed 5 [Callback 1, Callback 2, WeakSubscriber 1 ''b''] :: int property) \<noteq> 6"
    by (simp add: observed_def)
  have sb: "subscribersOf (0, ''a'') staleBinding =
      [Callback 1, Callback 2] @ underscore_makePropertySubscriber 1 ''b'' # []"
    by (simp add: staleBinding_def subscribersOf_def observed_def underscore_makePropertySubscriber_def)
  have l: "1 \<notin> live staleBinding" by (simp add: staleBinding_def)
  have c: "calls staleBinding = []" by (simp add: staleBinding_def)
  have w: "readValue (writeValue (observed 5 [Callback 1, Callback 2, WeakSubscriber 1 ''b''] :: int property) 6) = 6"
    by (simp add: observed_def)
  let ?pr = "observed 5 [Callback 1, Callback 2, WeakSubscriber 1 ''b''] :: int property"
  have i: "([Callback 1, Callback 2] :: int subscriber list) = map Callback [1, 2]" by simp
  from stale_subscription_throws[OF h r sb l, where k = 0 and w = 0,
      THEN conjunct2, THEN conjunct2, THEN conjunct2]
  have "\<forall>tags. ([Callback 1, Callback 2] :: int subscriber list) = map Callback tags \<longrightarrow>
            (\<exists>s'. setter (Suc 0) (0, ''a'') 6 staleBinding = Threw DanglingFunctionError s' \<and>
                  getter (0, ''a'') s' = Some (readValue (writeValue ?pr 6)) \<and>
                  subscribersOf (0, ''a'') s' = subscribersOf (0, ''a'') staleBinding \<and>
                  calls s' = calls staleBinding @ map (\<lambda>t. (t, readValue (writeValue ?pr 6))) tags \<and>
                  (\<forall>v'. getter (0, ''a'') s' \<noteq> Some v' \<longrightarrow>
                     (\<exists>s''. setter (Suc 0) (0, ''a'') v' s' = Threw DanglingFunctionError s'')))" .
  from this[rule_format, OF i] obtain s' where
    "setter (Suc 0) (0, ''a'') 6 staleBinding = Threw DanglingFunctionError s'"
    "getter (0, ''a'') s' = Some (readValue (writeValue ?pr 6))"
    "subscribersOf (0, ''a'') s' = subscribersOf (0, ''a'') staleBinding"
    "calls s' = calls staleBinding @ map (\<lambda>t. (t, readValue (writeValue ?pr 6))) [1, 2]"
    by blast
  with sb c w
  have "\<exists>s'. setter 1 (0, ''a'') 6 staleBinding = Threw DanglingFunctionError s' \<and>
         getter (0, ''a'') s' = Some 6 \<and> calls s' = [(1, 6), (2, 6)] \<and>
         subscribersOf (0, ''a'') s' = [Callback 1, Callback 2, WeakSubscriber 1 ''b'']"
    by (auto simp: underscore_makePropertySubscriber_def
             simp del: readValue.simps writeValue.simps)
  moreover
  have "map_option (destroy 1) (final (BDN_BIND_TO_PROPERTY 1 (1, ''b'') (0, ''a'') twoObjects)) =
     Some staleBinding"
  proof -
    have "\<exists>t. BDN_BIND_TO_PROPERTY 1 (1, ''b'') (0, ''a'') twoObjects = Returned t"
      by (simp add: run_defs twoObjects_def)
    then obtain t where t: "BDN_BIND_TO_PROPERTY 1 (1, ''b'') (0, ''a'') twoObjects = Returned t"
      by blast
    from staleBinding_scenario[OF t] t show ?thesis by simp
  qed
  ultimately show ?thesis using h r sb l by blast
qed

text \<open>
  C9: the function object of \<^verbatim>\<open>makePropertySubscriberWithFilter\<close> (without underscore)
  holds the raw owner pointer. With the owner alive it is the call of the receiver's setter
  on the filtered value and nothing else. With the owner destroyed it makes no check: at no
  depth does it end in \<^verbatim>\<open>DanglingFunctionError\<close> (the call through the dangling pointer is
  undefined behaviour), where the subscriber of \<^verbatim>\<open>_makePropertySubscriberWithFilter\<close>
  throws \<^verbatim>\<open>DanglingFunctionError\<close>.
\<close>

theorem raw_subscriber_makes_no_check:
  "(pOwner \<in> live s \<longrightarrow>
      call (Suc k) (makePropertySubscriberWithFilter pOwner setterMethod filterFunc) v s =
        setter k (pOwner, setterMethod) (filterFunc v) s) \<and>
   (pOwner \<notin> live s \<longrightarrow>
      call (Suc k) (makePropertySubscriberWithFilter pOwner setterMethod filterFunc) v s =
        UndefinedBehaviour \<and>
      (\<forall>j t. call j (makePropertySubscriberWithFilter pOwner setterMethod filterFunc) v s \<noteq>
               Threw DanglingFunctionError t) \<and>
      call (Suc k) (underscore_makePropertySubscriberWithFilter pOwner setterMethod filterFunc) v s =
        Threw DanglingFunctionError s)"
proof (intro conjI impI allI)
  fix j t assume d: "pOwner \<notin> live s"
  show "call j (makePropertySubscriberWithFilter pOwner setterMethod filterFunc) v s \<noteq>
          Threw DanglingFunctionError t"
    using d by (cases j) (simp_all add: makePropertySubscriberWithFilter_def)
qed (simp_all add: makePropertySubscriberWithFilter_def
       underscore_makePropertySubscriberWithFilter_def)

theorem raw_subscriber_makes_no_check_witness:
  "0 \<in> live twoObjects \<and> 1 \<notin> live staleBinding \<and>
   call 1 (makePropertySubscriberWithFilter 0 ''a'' (\<lambda>x. x + 1)) 4 twoObjects = Returned twoObjects \<and>
   call 1 (makePropertySubscriberWithFilter 1 ''b'' (\<lambda>x. x + 1)) 4 staleBinding = UndefinedBehaviour \<and>
   call 1 (underscore_makePropertySubscriberWithFilter 1 ''b'' (\<lambda>x. x + 1)) 4 staleBinding =
     Threw DanglingFunctionError staleBinding"
proof -
  have a: "0 \<in> live twoObjects" by (simp add: twoObjects_def)
  have d: "1 \<notin> live staleBinding" by (simp add: staleBinding_def)
  have s: "setter 0 (0, ''a'') ((\<lambda>x. x + 1) 4) twoObjects = Returned twoObjects"
    by (simp add: setter.simps twoObjects_def observed_def)
  from raw_subscriber_makes_no_check[of 0 twoObjects 0 "''a''" "\<lambda>x. x + 1" 4] a s
  have 1: "call 1 (makePropertySubscriberWithFilter 0 ''a'' (\<lambda>x. x + 1)) 4 twoObjects = Returned twoObjects"
    by simp
  from raw_subscriber_makes_no_check[of 1 staleBinding 0 "''b''" "\<lambda>x. x + 1" 4] d
  have 2: "call 1 (makePropertySubscriberWithFilter 1 ''b'' (\<lambda>x. x + 1)) 4 staleBinding = UndefinedBehaviour"
    "call 1 (underscore_makePropertySubscriberWithFilter 1 ''b'' (\<lambda>x. x + 1)) 4 staleBinding =
       Threw DanglingFunctionError staleBinding"
    by simp_all
  from a d 1 2 show ?thesis by blast
qed

text \<open>
  C8: with \<^verbatim>\<open>BDN_PROPERTY_CHANGED_DEFAULT_IMPLEMENTATION\<close>, a call of \<^verbatim>\<open>nameChanged()\<close> that
  finds the pointer null allocates the notifier (a new address, no subscribers) and stores
  the pointer; a call that finds the pointer set allocates nothing and returns the notifier
  the pointer refers to. A second call right after returns the same notifier and leaves the
  state as it is. After any sequence of commands of a client (setter calls, accessor
  calls, subscriptions, bindings, destruction of objects) that leaves the property alive,
  the accessor returns the notifier at the same address and changes nothing.
\<close>

theorem notifier_created_once:
  assumes "propertyChanged p s = Some (n, s1)"
  shows "(\<forall>pr. heap s p = Some pr \<longrightarrow> pPropertyChanged pr = None \<longrightarrow>
            n = \<lparr>address = nextAddress s, subscribers = []\<rparr> \<and>
            nextAddress s1 = Suc (nextAddress s)) \<and>
         (\<forall>pr. heap s p = Some pr \<longrightarrow> pPropertyChanged pr \<noteq> None \<longrightarrow>
            pPropertyChanged pr = Some n \<and> s1 = s) \<and>
         propertyChanged p s1 = Some (n, s1) \<and>
         (\<forall>k cs s2. run k cs s1 = Some s2 \<longrightarrow> heap s2 p \<noteq> None \<longrightarrow>
            (\<exists>n'. propertyChanged p s2 = Some (n', s2) \<and> address n' = address n))"
proof (intro conjI allI impI)
  fix pr assume "heap s p = Some pr" "pPropertyChanged pr = None"
  with assms show "n = \<lparr>address = nextAddress s, subscribers = []\<rparr>"
    "nextAddress s1 = Suc (nextAddress s)"
    by (auto simp: propertyChanged_def Let_def)
next
  fix pr assume "heap s p = Some pr" "pPropertyChanged pr \<noteq> None"
  with assms show "pPropertyChanged pr = Some n" "s1 = s"
    by (auto simp: propertyChanged_def Let_def)
next
  from assms obtain pr1 where h1: "heap s1 p = Some pr1" and n1: "pPropertyChanged pr1 = Some n"
    by (auto simp: propertyChanged_def Let_def split: option.splits)
  then show "propertyChanged p s1 = Some (n, s1)" by (simp add: propertyChanged_def)
  fix k cs s2 assume r: "run k cs s1 = Some s2" and a: "heap s2 p \<noteq> None"
  from a obtain pr2 where h2: "heap s2 p = Some pr2" by blast
  from ages_run[OF r] h1 n1 h2 obtain n' where "pPropertyChanged pr2 = Some n'"
    "address n' = address n" unfolding ages_def by blast
  with h2 show "\<exists>n'. propertyChanged p s2 = Some (n', s2) \<and> address n' = address n"
    by (simp add: propertyChanged_def)
qed

theorem notifier_created_once_witness:
  "\<exists>n s1. propertyChanged (1, ''b'') twoObjects = Some (n, s1) \<and>
      n = \<lparr>address = 1, subscribers = []\<rparr> \<and> nextAddress s1 = 2 \<and>
      propertyChanged (1, ''b'') s1 = Some (n, s1) \<and>
      (\<exists>s2. run 2 [Set (1, ''b'') 9, BindToProperty (0, ''a'') (1, ''b''), Destroy 0] s1 = Some s2 \<and>
            heap s2 (1, ''b'') \<noteq> None \<and>
            (\<exists>n'. propertyChanged (1, ''b'') s2 = Some (n', s2) \<and> address n' = 1))"
proof -
  define s1 where "s1 = twoObjects\<lparr>heap := (heap twoObjects)((1, ''b'') \<mapsto>
                 (newProperty 7)\<lparr>pPropertyChanged := Some \<lparr>address = 1, subscribers = []\<rparr>\<rparr>),
               nextAddress := 2\<rparr>"
  define n :: "int PropertyNotifier" where "n = \<lparr>address = 1, subscribers = []\<rparr>"
  have pc: "propertyChanged (1, ''b'') twoObjects = Some (n, s1)"
    by (simp add: s1_def n_def propertyChanged_def Let_def twoObjects_def newProperty_def)
  have h: "heap twoObjects (1, ''b'') = Some (newProperty 7)" by (simp add: twoObjects_def)
  have z: "pPropertyChanged (newProperty 7 :: int property) = None" by (simp add: newProperty_def)
  have na: "nextAddress twoObjects = 1" by (simp add: twoObjects_def)
  note th = notifier_created_once[OF pc]
  from th[THEN conjunct1, rule_format, OF h z] na
  have n: "n = \<lparr>address = 1, subscribers = []\<rparr>" "nextAddress s1 = 2" by simp_all
  from th have again: "propertyChanged (1, ''b'') s1 = Some (n, s1)" by blast
  obtain s2 where r: "run 2 [Set (1, ''b'') 9, BindToProperty (0, ''a'') (1, ''b''), Destroy 0] s1 = Some s2"
    and a: "heap s2 (1, ''b'') \<noteq> None"
    unfolding s1_def by (simp add: run_defs call_numeral twoObjects_def)
  from th[THEN conjunct2, THEN conjunct2, THEN conjunct2, rule_format, OF r a] n
  have "\<exists>n'. propertyChanged (1, ''b'') s2 = Some (n', s2) \<and> address n' = 1" by simp
  with pc n again r a show ?thesis by blast
qed




text \<open>
  C10: \<^verbatim>\<open>BDN_NOTIFY_PROPERTY_CHANGED\<close> passes to the subscribers what the getter returns
  when the notification is made, not the setter's argument. Whatever the subscribers are,
  a setter call that changes the value is the notification of the subscribers with the
  value \<open>w\<close> read back after the store (state \<open>s0\<close>, in which the getter returns \<open>w\<close>); the
  subscribers are called with \<open>w\<close> one after the other, and a binding made by
  \<^verbatim>\<open>_makePropertySubscriber\<close> hands \<open>w\<close> to the receiver's setter. For \<^verbatim>\<open>BDN_PROPERTY\<close>,
  \<open>w\<close> is the argument; for the \<^verbatim>\<open>Length\<close> example it is the stored \<^verbatim>\<open>newValue / 100\<close>
  multiplied by 100 again. When the subscribers are client callbacks, the setter returns
  and each has recorded \<open>w\<close>. When the subscribers are client callbacks and unfiltered
  bindings into a finite set \<open>R\<close> of existing \<^verbatim>\<open>BDN_PROPERTY\<close> properties of live owners
  whose own subscribers are of that kind, the setter returns (depth above \<open>card R\<close>) and
  every bound receiver holds \<open>w\<close>.
\<close>

theorem notification_passes_getter_value:
  fixes s :: "'v state"
  assumes "heap s p = Some pr" and "readValue pr \<noteq> newValue"
  shows "(accessors pr = BDN_PROPERTY \<longrightarrow> readValue (writeValue pr newValue) = newValue) \<and>
         (\<forall>times100 divide100. accessors pr = Length times100 divide100 \<longrightarrow>
            readValue (writeValue pr newValue) = times100 (divide100 newValue)) \<and>
         (\<exists>s0. getter p s0 = Some (readValue (writeValue pr newValue)) \<and>
            calls s0 = calls s \<and>
            setter k p newValue s =
              notify k (subscribersOf p s) (readValue (writeValue pr newValue)) s0 \<and>
            (\<exists>m ss. m \<le> length (subscribersOf p s) \<and> length ss = Suc m \<and> ss ! 0 = s0 \<and>
               (\<forall>i<m. call k (subscribersOf p s ! i) (readValue (writeValue pr newValue)) (ss ! i) =
                         Returned (ss ! Suc i)) \<and>
               (m = length (subscribersOf p s) \<longrightarrow> setter k p newValue s = Returned (ss ! m)) \<and>
               (m < length (subscribersOf p s) \<longrightarrow>
                  setter k p newValue s =
                    call k (subscribersOf p s ! m) (readValue (writeValue pr newValue)) (ss ! m)))) \<and>
         (\<forall>j ow m. \<forall>t :: 'v state. ow \<in> live t \<longrightarrow>
            call (Suc j) (underscore_makePropertySubscriber ow m)
                 (readValue (writeValue pr newValue)) t =
              setter j (ow, m) (readValue (writeValue pr newValue)) t) \<and>
         (\<forall>tags. subscribersOf p s = map Callback tags \<longrightarrow> 0 < k \<longrightarrow>
            (\<exists>s'. setter k p newValue s = Returned s' \<and>
                  calls s' = calls s @ map (\<lambda>t. (t, readValue (writeValue pr newValue))) tags \<and>
                  getter p s' = Some (readValue (writeValue pr newValue)))) \<and>
         (\<forall>R. plainRegion R s \<longrightarrow> soundRegion R s \<longrightarrow> finite R \<longrightarrow> card R < k \<longrightarrow>
            into R (subscribersOf p s) \<longrightarrow> list_all plainSubscriber (subscribersOf p s) \<longrightarrow>
            (\<exists>s'. setter k p newValue s = Returned s' \<and>
                  (\<forall>ow m. WeakSubscriber ow m \<in> set (subscribersOf p s) \<longrightarrow>
                     getter (ow, m) s' = Some (readValue (writeValue pr newValue)))))"
proof (intro conjI allI impI)
  assume "accessors pr = BDN_PROPERTY"
  then show "readValue (writeValue pr newValue) = newValue" by simp
next
  fix times100 divide100 assume "accessors pr = Length times100 divide100"
  then show "readValue (writeValue pr newValue) = times100 (divide100 newValue)" by simp
next
  let ?w = "readValue (writeValue pr newValue)"
  from setter_changed[OF assms(1,2), of k] obtain n s0 where
    g: "getter p s0 = Some ?w" and c: "calls s0 = calls s"
    and eq: "setter k p newValue s = notify k (subscribersOf p s) ?w s0"
    by blast
  from notify_prefix[of "subscribersOf p s" s0 k ?w] obtain m ss where
    "m \<le> length (subscribersOf p s)" "length ss = Suc m" "ss ! 0 = s0"
    "\<forall>i<m. call k (subscribersOf p s ! i) ?w (ss ! i) = Returned (ss ! Suc i)"
    "m = length (subscribersOf p s) \<longrightarrow> notify k (subscribersOf p s) ?w s0 = Returned (ss ! m)"
    "m < length (subscribersOf p s) \<longrightarrow>
       notify k (subscribersOf p s) ?w s0 = call k (subscribersOf p s ! m) ?w (ss ! m)"
    by blast
  then have pre: "\<exists>m ss. m \<le> length (subscribersOf p s) \<and> length ss = Suc m \<and> ss ! 0 = s0 \<and>
               (\<forall>i<m. call k (subscribersOf p s ! i) ?w (ss ! i) = Returned (ss ! Suc i)) \<and>
               (m = length (subscribersOf p s) \<longrightarrow> setter k p newValue s = Returned (ss ! m)) \<and>
               (m < length (subscribersOf p s) \<longrightarrow>
                  setter k p newValue s = call k (subscribersOf p s ! m) ?w (ss ! m))"
    unfolding eq by blast
  show "\<exists>s0. getter p s0 = Some ?w \<and> calls s0 = calls s \<and>
            setter k p newValue s = notify k (subscribersOf p s) ?w s0 \<and>
            (\<exists>m ss. m \<le> length (subscribersOf p s) \<and> length ss = Suc m \<and> ss ! 0 = s0 \<and>
               (\<forall>i<m. call k (subscribersOf p s ! i) ?w (ss ! i) = Returned (ss ! Suc i)) \<and>
               (m = length (subscribersOf p s) \<longrightarrow> setter k p newValue s = Returned (ss ! m)) \<and>
               (m < length (subscribersOf p s) \<longrightarrow>
                  setter k p newValue s = call k (subscribersOf p s ! m) ?w (ss ! m)))"
    apply (rule exI[of _ s0])
    apply (intro conjI)
       apply (rule g)
      apply (rule c)
     apply (rule eq)
    apply (rule pre)
    done
next
  fix j ow m and t :: "'v state" assume "ow \<in> live t"
  then show "call (Suc j) (underscore_makePropertySubscriber ow m)
                 (readValue (writeValue pr newValue)) t =
              setter j (ow, m) (readValue (writeValue pr newValue)) t"
    by (simp add: underscore_makePropertySubscriber_def del: readValue.simps writeValue.simps)
next
  fix tags assume sb: "subscribersOf p s = map Callback tags" and k: "0 < k"
  let ?w = "readValue (writeValue pr newValue)"
  from setter_changed[OF assms(1,2), of k] obtain n s0 where
    g: "getter p s0 = Some ?w" and c: "calls s0 = calls s"
    and eq: "setter k p newValue s = notify k (subscribersOf p s) ?w s0"
    by blast
  let ?s1 = "s0\<lparr>calls := calls s0 @ map (\<lambda>t. (t, ?w)) tags\<rparr>"
  from eq sb notify_callbacks[OF k, of tags ?w s0]
  have "setter k p newValue s = Returned ?s1" by simp
  moreover have "getter p ?s1 = Some ?w" using g by (simp add: getter_def)
  ultimately show "\<exists>s'. setter k p newValue s = Returned s' \<and>
            calls s' = calls s @ map (\<lambda>t. (t, ?w)) tags \<and> getter p s' = Some ?w"
    using c by auto
next
  fix R assume "plainRegion R s" "soundRegion R s" "finite R" "card R < k"
    "into R (subscribersOf p s)" "list_all plainSubscriber (subscribersOf p s)"
  from setter_changed_plain[OF assms(1,2) this(1,2,3,5,6,4)]
  show "\<exists>s'. setter k p newValue s = Returned s' \<and>
                  (\<forall>ow m. WeakSubscriber ow m \<in> set (subscribersOf p s) \<longrightarrow>
                     getter (ow, m) s' = Some (readValue (writeValue pr newValue)))" .
qed

theorem notification_passes_getter_value_witness:
  "heap lengthObject (2, ''centimeters'') =
     Some \<lparr>accessors = Length (\<lambda>m. m * 100) (\<lambda>c. c / 100), propertyValue = 0,
           pPropertyChanged =
             Some \<lparr>address = 0, subscribers = [Callback 7, WeakSubscriber 3 ''shown'']\<rparr>\<rparr> \<and>
   getter (2, ''centimeters'') lengthObject = Some 0 \<and>
   subscribersOf (2, ''centimeters'') lengthObject = [Callback 7, WeakSubscriber 3 ''shown''] \<and>
   plainRegion {(3, ''shown'')} lengthObject \<and> soundRegion {(3, ''shown'')} lengthObject \<and>
   card {(3 :: nat, ''shown'')} < 2 \<and>
   (\<exists>s'. setter 2 (2, ''centimeters'') 250 lengthObject = Returned s' \<and>
         getter (3, ''shown'') s' = Some (250 / 100 * 100) \<and>
         getter (3, ''shown'') s' = Some 250)"
proof -
  let ?pr = "\<lparr>accessors = Length (\<lambda>m. m * 100) (\<lambda>c. c / 100), propertyValue = 0,
           pPropertyChanged =
             Some \<lparr>address = 0, subscribers = [Callback 7, WeakSubscriber 3 ''shown'']\<rparr>\<rparr>
           :: real property"
  let ?R = "{(3 :: nat, ''shown'')}"
  have h: "heap lengthObject (2, ''centimeters'') = Some ?pr" by (simp add: lengthObject_def)
  have ne: "readValue ?pr \<noteq> 250" by simp
  have rw: "readValue (writeValue ?pr 250) = 250 / 100 * 100" by simp
  have g: "getter (2, ''centimeters'') lengthObject = Some 0" by (simp add: getter_def h)
  have sb: "subscribersOf (2, ''centimeters'') lengthObject =
              [Callback 7, WeakSubscriber 3 ''shown'']"
    by (simp add: subscribersOf_def h)
  have pl: "plainRegion ?R lengthObject"
    by (simp add: plainRegion_def closedRegion_def into_def subscribersOf_def lengthObject_def
          newProperty_def)
  have so: "soundRegion ?R lengthObject" by (simp add: soundRegion_def lengthObject_def)
  have fin: "finite ?R" and k: "card ?R < 2" by simp_all
  have io: "into ?R (subscribersOf (2, ''centimeters'') lengthObject)"
    unfolding sb by (simp add: into_def)
  have po: "list_all plainSubscriber (subscribersOf (2, ''centimeters'') lengthObject)"
    unfolding sb by simp
  note t = notification_passes_getter_value[OF h ne, of 2]
  note d = t[THEN conjunct2, THEN conjunct2, THEN conjunct2, THEN conjunct2, THEN conjunct2,
             rule_format, OF pl so fin k io po]
  from d obtain s' where r: "setter 2 (2, ''centimeters'') 250 lengthObject = Returned s'"
    and v: "\<forall>ow m. WeakSubscriber ow m \<in> set (subscribersOf (2, ''centimeters'') lengthObject) \<longrightarrow>
              getter (ow, m) s' = Some (readValue (writeValue ?pr 250))"
    by blast
  from v have "getter (3, ''shown'') s' = Some (readValue (writeValue ?pr 250))"
    unfolding sb by simp
  then have "getter (3, ''shown'') s' = Some (250 / 100 * 100)" "getter (3, ''shown'') s' = Some 250"
    by simp_all
  with r have "\<exists>s'. setter 2 (2, ''centimeters'') 250 lengthObject = Returned s' \<and>
         getter (3, ''shown'') s' = Some (250 / 100 * 100) \<and>
         getter (3, ''shown'') s' = Some 250"
    by blast
  with h g sb pl so k show ?thesis by (simp only: simp_thms)
qed

text \<open>
  C7: \<^verbatim>\<open>BDN_BIND_TO_PROPERTY\<close>, when it ends (returning or throwing), has done this and
  nothing else: it has asked the sender for its notifier, has appended one subscriber to
  the sender's subscriber list, the one made by \<^verbatim>\<open>_makePropertySubscriber\<close>, whose target
  is the receiver, which changed no value and no other property; and it has called the
  receiver's setter with the sender's value, which changed no subscriber list. So the
  binding installs nothing that writes the sender.
  Whenever the receiver lies in a set \<open>R\<close> of properties that does not contain the sender
  and whose subscribers all target properties of \<open>R\<close> or are client callbacks (no other
  binding leads from the receiver to the sender), the bind operation leaves the sender's
  value as it was, and so does every later sequence of setter calls on the receiver or on
  other properties of \<open>R\<close>: the sender's members are untouched.
  The bind operation itself leaves the sender's value as it was also when bindings lead
  back to the sender, provided they are unfiltered: when the receiver lies in a set \<open>R\<close>
  (which may contain the sender) of \<^verbatim>\<open>BDN_PROPERTY\<close> properties whose subscribers are
  client callbacks or unfiltered bindings to properties of \<open>R\<close>.
\<close>

theorem one_way_binding_leaves_sender:
  fixes s :: "'v state"
  assumes "final (BDN_BIND_TO_PROPERTY k receiver sender s) = Some s1"
  shows "(\<exists>n sa v s0. propertyChanged sender s = Some (n, sa) \<and>
            s0 = subscribe sender (underscore_makePropertySubscriber (fst receiver) (snd receiver)) sa \<and>
            getter sender s = Some v \<and> (\<forall>q. getter q s0 = getter q s) \<and>
            (\<forall>q. q \<noteq> sender \<longrightarrow> heap s0 q = heap s q) \<and>
            subscribersOf sender s0 =
              subscribersOf sender s @
                [underscore_makePropertySubscriber (fst receiver) (snd receiver)] \<and>
            target (underscore_makePropertySubscriber (fst receiver) (snd receiver) :: 'v subscriber) =
              Some receiver \<and>
            final (setter k receiver v s0) = Some s1 \<and>
            (\<forall>q. subscribersOf q s1 = subscribersOf q s0)) \<and>
         (\<forall>R. closedRegion R s \<longrightarrow> receiver \<in> R \<longrightarrow> sender \<notin> R \<longrightarrow>
            getter sender s1 = getter sender s \<and>
            (\<forall>j cs s2. list_all (setsIn R) cs \<longrightarrow> run j cs s1 = Some s2 \<longrightarrow>
               heap s2 sender = heap s1 sender \<and> getter sender s2 = getter sender s)) \<and>
         (\<forall>R. plainRegion R s \<longrightarrow> receiver \<in> R \<longrightarrow> getter sender s1 = getter sender s)"
proof -
  let ?sub = "underscore_makePropertySubscriber (fst receiver) (snd receiver) :: 'v subscriber"
  from bind_unfold[OF assms] obtain n sa v where pc: "propertyChanged sender s = Some (n, sa)"
    and gv: "getter sender s = Some v"
    and f: "final (setter k receiver v (subscribe sender ?sub sa)) = Some s1"
    by blast
  let ?sb = "subscribe sender ?sub sa"
  have g0': "getter q ?sb = getter q s" for q
    by (simp add: subscribe_getter propertyChanged_getter[OF pc])
  then have g0: "\<forall>q. getter q ?sb = getter q s" by blast
  have o0: "\<forall>q. q \<noteq> sender \<longrightarrow> heap ?sb q = heap s q"
    using propertyChanged_elsewhere[OF pc] by (simp add: subscribe_elsewhere)
  from propertyChanged_pointer[OF pc] obtain pr1 where h1: "heap sa sender = Some pr1"
    and n1: "pPropertyChanged pr1 = Some n" by blast
  have sbs: "subscribersOf sender ?sb = subscribersOf sender s @ [?sub]"
    using subscribersOf_subscribe_same[OF h1 n1, of ?sub]
      subscribersOf_evolves[OF evolves_propertyChanged[OF pc], of sender] by simp
  have tg: "target ?sub = Some receiver" by (simp add: underscore_makePropertySubscriber_def)
  have e1: "evolves ?sb s1" using frame(1)[OF f] .
  have sl: "\<forall>q. subscribersOf q s1 = subscribersOf q ?sb"
    using subscribersOf_evolves[OF e1] by simp
  have A: "\<exists>n sa v s0. propertyChanged sender s = Some (n, sa) \<and>
            s0 = subscribe sender ?sub sa \<and>
            getter sender s = Some v \<and> (\<forall>q. getter q s0 = getter q s) \<and>
            (\<forall>q. q \<noteq> sender \<longrightarrow> heap s0 q = heap s q) \<and>
            subscribersOf sender s0 = subscribersOf sender s @ [?sub] \<and>
            target ?sub = Some receiver \<and>
            final (setter k receiver v s0) = Some s1 \<and>
            (\<forall>q. subscribersOf q s1 = subscribersOf q s0)"
    apply (rule exI[of _ n], rule exI[of _ sa], rule exI[of _ v], rule exI[of _ ?sb])
    apply (intro conjI)
            apply (rule pc)
           apply (rule refl)
          apply (rule gv)
         apply (rule g0)
        apply (rule o0)
       apply (rule sbs)
      apply (rule tg)
     apply (rule f)
    apply (rule sl)
    done
  have B: "getter sender s1 = getter sender s \<and>
            (\<forall>j cs s2. list_all (setsIn R) cs \<longrightarrow> run j cs s1 = Some s2 \<longrightarrow>
               heap s2 sender = heap s1 sender \<and> getter sender s2 = getter sender s)"
    if cl: "closedRegion R s" and r: "receiver \<in> R" and sn: "sender \<notin> R" for R
  proof -
    from closedRegion_cong[OF subscribed_elsewhere[OF pc sn]] cl
    have cb: "closedRegion R ?sb" by simp
    from unchangedOutsideD[OF footprint(1)[OF f cb r] sn]
    have "heap s1 sender = heap ?sb sender" .
    then have "getter sender s1 = getter sender ?sb" by (rule getter_heap)
    with g0'[of sender] have g: "getter sender s1 = getter sender s" by simp
    have c1: "closedRegion R s1" using closedRegion_evolves[OF cb e1] .
    have "heap s2 sender = heap s1 sender \<and> getter sender s2 = getter sender s"
      if "list_all (setsIn R) cs" "run j cs s1 = Some s2" for j cs s2
      using sets_outside[OF c1 that sn] g by (simp add: getter_def)
    with g show ?thesis by blast
  qed
  have C: "getter sender s1 = getter sender s" if pl: "plainRegion R s" and r: "receiver \<in> R" for R
  proof -
    have ps: "plainSubscriber ?sub" "into R [?sub]"
      using r by (simp_all add: underscore_makePropertySubscriber_def into_def)
    have pl2: "plainRegion R ?sb"
      using plainRegion_subscribe[OF plainRegion_evolves[OF pl evolves_propertyChanged[OF pc]] ps] .
    from g0'[of sender] gv have "getter sender ?sb = Some v" by simp
    from writesOnly_keeps[OF plain_values(1)[OF f pl2 r] this] gv show ?thesis by simp
  qed
  from B have B': "\<forall>R. closedRegion R s \<longrightarrow> receiver \<in> R \<longrightarrow> sender \<notin> R \<longrightarrow>
            getter sender s1 = getter sender s \<and>
            (\<forall>j cs s2. list_all (setsIn R) cs \<longrightarrow> run j cs s1 = Some s2 \<longrightarrow>
               heap s2 sender = heap s1 sender \<and> getter sender s2 = getter sender s)"
    by (intro allI impI)
  from C have C': "\<forall>R. plainRegion R s \<longrightarrow> receiver \<in> R \<longrightarrow> getter sender s1 = getter sender s"
    by (intro allI impI)
  show ?thesis by (rule conjI[OF A conjI[OF B' C']])
qed

theorem one_way_binding_leaves_sender_witness:
  "final (BDN_BIND_TO_PROPERTY 2 (0, ''a'') (1, ''b'') twoObjects) = Some boundOneWay \<and>
   closedRegion {(0, ''a'')} twoObjects \<and> (0, ''a'') \<in> {(0 :: nat, ''a'')} \<and>
   (1, ''b'') \<notin> {(0 :: nat, ''a'')} \<and>
   getter (1, ''b'') boundOneWay = Some 7 \<and> getter (1, ''b'') twoObjects = Some 7 \<and>
   list_all (setsIn {(0, ''a'')}) [Set (0, ''a'') 3, Set (0, ''a'') 4 :: int command] \<and>
   map_option (getter (1, ''b'')) (run 2 [Set (0, ''a'') 3, Set (0, ''a'') 4] boundOneWay) =
     Some (Some 7)"
proof -
  have c: "closedRegion {(0, ''a'')} twoObjects"
    by (simp add: closedRegion_def into_def subscribersOf_def twoObjects_def observed_def)
  have r: "(0, ''a'') \<in> {(0 :: nat, ''a'')}" and sn: "(1, ''b'') \<notin> {(0 :: nat, ''a'')}" by simp_all
  have f: "final (BDN_BIND_TO_PROPERTY 2 (0, ''a'') (1, ''b'') twoObjects) = Some boundOneWay"
    by (auto simp: run_defs call_numeral twoObjects_def boundOneWay_def fun_eq_iff)
  have l: "list_all (setsIn {(0, ''a'')}) [Set (0, ''a'') 3, Set (0, ''a'') 4 :: int command]" by simp
  have "\<exists>s2. run 2 [Set (0, ''a'') 3, Set (0, ''a'') 4] boundOneWay = Some s2"
    by (simp add: run_defs call_numeral boundOneWay_def)
  then obtain s2 where r2: "run 2 [Set (0, ''a'') 3, Set (0, ''a'') 4] boundOneWay = Some s2" by blast
  note th = one_way_binding_leaves_sender[OF f, THEN conjunct2, THEN conjunct1, rule_format,
      OF c r sn]
  from th have g1: "getter (1, ''b'') boundOneWay = getter (1, ''b'') twoObjects" by (rule conjunct1)
  from th[THEN conjunct2, rule_format, OF l r2]
  have g2: "getter (1, ''b'') s2 = getter (1, ''b'') twoObjects" by (rule conjunct2)
  have g0: "getter (1, ''b'') twoObjects = Some 7"
    by (simp add: getter_def twoObjects_def newProperty_def)
  from c r sn f l r2 g0 g1 g2 show ?thesis by simp
qed









end
